theory Spec2Isabelle
  imports Main "HOL-Library.Sublist"
begin

section \<open>JavaScript strings\<close>

text \<open>
  A JavaScript string is a sequence of UTF-16 code units. The model uses \<^typ>\<open>string\<close>:
  one \<^typ>\<open>char\<close> stands for one code unit below 256 (the Latin-1 range), which covers
  every literal of the scraper (the only non-ASCII one is the accented e, code unit
  0xE9, of one facility keyword).
\<close>

fun startsWith :: "string \<Rightarrow> string \<Rightarrow> bool" where
  "startsWith s [] = True"
| "startsWith [] (p # ps) = False"
| "startsWith (c # cs) (p # ps) = (c = p \<and> startsWith cs ps)"

fun includes_str :: "string \<Rightarrow> string \<Rightarrow> bool" where
  "includes_str [] p = (p = [])"
| "includes_str (c # cs) p = (startsWith (c # cs) p \<or> includes_str cs p)"

text \<open>The white space and line terminators of ECMAScript that lie below 256.\<close>

definition isWhiteSpace :: "char \<Rightarrow> bool" where
  "isWhiteSpace c =
     (c = CHR 0x09 \<or> c = CHR 0x0A \<or> c = CHR 0x0B \<or> c = CHR 0x0C \<or> c = CHR 0x0D
      \<or> c = CHR 0x20 \<or> c = CHR 0xA0)"

definition trim :: "string \<Rightarrow> string" where
  "trim s = rev (dropWhile isWhiteSpace (rev (dropWhile isWhiteSpace s)))"

text \<open>
  \<open>String.prototype.toLowerCase\<close> on code units below 256: A..Z and the Latin-1 capitals
  0xC0..0xDE (without the multiplication sign 0xD7) move up by 32.
\<close>

definition toLowerChar :: "char \<Rightarrow> char" where
  "toLowerChar c =
     (let n = (of_char c :: nat)
      in if (65 \<le> n \<and> n \<le> 90) \<or> (192 \<le> n \<and> n \<le> 222 \<and> n \<noteq> 215)
         then char_of (n + 32) else c)"

definition toLowerCase :: "string \<Rightarrow> string" where
  "toLowerCase s = map toLowerChar s"

section \<open>Violation severity classification\<close>

definition HIGH_PRIORITY :: "string list" where
  "HIGH_PRIORITY = [''3-501.16(A)(2)'', ''3-501.16(A)(1)'', ''3-401.11'', ''3-501.14'',
     ''3-302.11(A)(1)'', ''3-302.11(A)(2)'', ''4-601.11(A)'', ''2-301.14'', ''3-201.11'',
     ''3-202.15'']"

definition MEDIUM_PRIORITY :: "string list" where
  "MEDIUM_PRIORITY = [''3-501.17'', ''2-501.11'', ''2-401.11'', ''4-702.11'', ''4-501.114'',
     ''3-603.11'', ''3-305.11'']"

definition LOW_PRIORITY :: "string list" where
  "LOW_PRIORITY = [''2-102.12(A)'', ''2-103.11(O)'', ''5-205.11'', ''5-202.12(A)'',
     ''4-501.11'', ''4-903.11'']"

definition CORE :: "string list" where
  "CORE = [''7-102.11'', ''6-301.14'', ''6-301.12'', ''7-204.11'', ''6-301.11'',
     ''7-207.11(B)'', ''7-202.11'', ''7-201.11'']"

text \<open>
  One \<open>for (const c of table) if (normalized.startsWith(c) || normalized.includes(c)) return\<close>
  loop: does the loop return?
\<close>

fun matchesTable :: "string list \<Rightarrow> string \<Rightarrow> bool" where
  "matchesTable [] normalized = False"
| "matchesTable (c # cs) normalized =
     (if startsWith normalized c \<or> includes_str normalized c then True
      else matchesTable cs normalized)"

text \<open>\<open>critical.some(c => normalized.startsWith(c))\<close> with \<open>critical = ['2-','3-','4-','5-']\<close>.\<close>

definition criticalPrefix :: "string \<Rightarrow> bool" where
  "criticalPrefix normalized =
     list_ex (\<lambda>c. startsWith normalized c) [''2-'', ''3-'', ''4-'', ''5-'']"

definition classifyViolation :: "string \<Rightarrow> string" where
  "classifyViolation code =
     (let normalized = trim code
      in if matchesTable HIGH_PRIORITY normalized then ''critical''
         else if matchesTable MEDIUM_PRIORITY normalized then ''critical''
         else if matchesTable LOW_PRIORITY normalized then ''critical''
         else if matchesTable CORE normalized then ''noncritical''
         else if criticalPrefix normalized then ''critical'' else ''noncritical'')"

text \<open>
  Points are JavaScript numbers; every value that occurs is a small integer, so the
  model uses \<^typ>\<open>int\<close>.
\<close>

definition getViolationPoints :: "string \<Rightarrow> int" where
  "getViolationPoints code =
     (let normalized = trim code
      in if matchesTable HIGH_PRIORITY normalized then 15
         else if matchesTable MEDIUM_PRIORITY normalized then 8
         else if matchesTable LOW_PRIORITY normalized then 3
         else if matchesTable CORE normalized then 1
         else if criticalPrefix normalized then 8 else 1)"

text \<open>
  A violation object. The scraper builds it with \<open>violationCode\<close>, \<open>codeExplanation\<close>,
  \<open>inspectorComments\<close> and \<open>section\<close> (here \<open>section_tag\<close>); \<open>calculateRiskScore\<close>
  also reads a property \<open>code\<close>. A property that is absent (\<open>undefined\<close>) is \<open>None\<close>.
\<close>

record violation =
  violationCode :: "string option"
  code :: "string option"
  codeExplanation :: string
  inspectorComments :: string
  section_tag :: string

text \<open>\<open>x || y\<close> on optional strings: \<open>undefined\<close> and the empty string are falsy.\<close>

definition truthy :: "string option \<Rightarrow> bool" where
  "truthy x = (case x of None \<Rightarrow> False | Some s \<Rightarrow> s \<noteq> [])"

text \<open>\<open>v.violationCode || v.code || ''\<close>\<close>

definition orElse :: "string option \<Rightarrow> string \<Rightarrow> string" where
  "orElse x y = (case x of None \<Rightarrow> y | Some s \<Rightarrow> if s \<noteq> [] then s else y)"

definition codeOf :: "violation \<Rightarrow> string" where
  "codeOf v = orElse (violationCode v) (orElse (code v) [])"

definition calculateRiskScore :: "violation list \<Rightarrow> bool \<Rightarrow> bool \<Rightarrow> int" where
  "calculateRiskScore violations closureFlag reinspectionFlag =
     (let score = fold (\<lambda>v score. score + getViolationPoints (codeOf v)) violations 0;
          score = (if closureFlag then score + 50 else score);
          score = (if reinspectionFlag then score + 10 else score)
      in min score 100)"

definition getRiskLevel :: "int \<Rightarrow> string" where
  "getRiskLevel score =
     (if score = 0 then ''EXCELLENT''
      else if score \<le> 5 then ''LOW''
      else if score \<le> 20 then ''MEDIUM''
      else if score \<le> 40 then ''HIGH''
      else ''CRITICAL'')"

definition getColor :: "int \<Rightarrow> string" where
  "getColor score =
     (if score \<ge> 50 then ''crimson''
      else if score \<ge> 30 then ''red''
      else if score \<ge> 15 then ''orange''
      else if score > 0 then ''yellow''
      else ''green'')"

section \<open>Facility categorization\<close>

text \<open>One entry of the table: its \<open>keywords\<close> (here \<open>keyword_list\<close>) and its priority.\<close>

record config =
  keyword_list :: "string list"
  priority :: int

text \<open>
  The object literal \<open>FACILITY_CATEGORIES\<close>; \<open>Object.entries\<close> lists its properties in
  the order they are written (no key is an integer index).
\<close>

definition FACILITY_CATEGORIES :: "(string \<times> config) list" where
  "FACILITY_CATEGORIES =
    [(''School'', \<lparr>keyword_list = [''school'', ''elementary'', ''middle school'', ''high school'',
        ''preschool'', ''daycare'', ''day care'', ''childcare'', ''child care'', ''university'',
        ''college'', ''academy'', ''kindergarten'', ''head start''], priority = 10\<rparr>),
     (''Senior/Community Center'', \<lparr>keyword_list = [''nutrition program'', ''senior center'',
        ''elderly'', ''retirement'', ''assisted living'', ''nursing home'', ''care center'',
        ''community center'', ''senior living'', ''memory care'', ''adult day''], priority = 9\<rparr>),
     (''Fast Food'', \<lparr>keyword_list = [''mcdonalds'', ''mcdonald's'', ''burger king'', ''subway'',
        ''taco bell'', ''wendy'', ''wendys'', ''kfc'', ''arby'', ''domino'', ''pizza hut'',
        ''papa john'', ''sonic'', ''dairy queen'', ''dq '', ''popeyes'', ''chick-fil-a'',
        ''chipotle'', ''panera'', ''jimmy john'', ''qdoba'', ''taco john'', ''culver'',
        ''raising cane'', ''five guys'', ''shake shack'', ''whataburger'', ''drive thru'',
        ''drive-thru''], priority = 8\<rparr>),
     (''Gas Station/Convenience'', \<lparr>keyword_list = [''casey'', ''kum & go'', ''kum and go'',
        ''kwik trip'', ''kwik star'', ''quiktrip'', ''quick trip'', ''bp '', ''shell'',
        ''git n go'', ''git-n-go'', ''conoco'', ''phillips 66'', ''7-eleven'', ''speedway'',
        ''pilot'', ''flying j'', ''circle k'', ''marathon'', ''loves'', ''gas station'',
        ''convenience store'', ''c-store'', ''truck stop''], priority = 7\<rparr>),
     (''Grocery Store'', \<lparr>keyword_list = [''hy-vee'', ''aldi'', ''walmart'', ''target'', ''fareway'',
        ''whole foods'', ''trader joe'', ''fresh thyme'', ''natural grocers'', ''kroger'',
        ''costco'', ''sam's club'', ''sams club'', ''grocery store'', ''grocery'', ''market'',
        ''supermarket'', ''food mart'', ''food market'', ''asian market'', ''asian grocery'',
        ''international market'', ''ethnic market''], priority = 6\<rparr>),
     (''Bar/Brewery/Distillery'', \<lparr>keyword_list = [''bar'', ''pub'', ''brewery'', ''brewing'',
        ''brewpub'', ''taproom'', ''tavern'', ''lounge'', ''saloon'', ''sports bar'',
        ''nightclub'', ''night club'', ''distillery'', ''winery'', ''wine bar'',
        ''cocktail lounge'', ''cocktail bar''], priority = 5\<rparr>),
     (''Coffee Shop/Cafe'', \<lparr>keyword_list = [''starbucks'', ''caribou'', ''dunkin'', ''peet's'',
        ''dutch bros'', ''tim horton'', ''coffee'', ''cafe'', ''caf'' @ [CHR 0xE9], ''espresso'',
        ''coffee shop'', ''coffee house'', ''coffeehouse''], priority = 4\<rparr>),
     (''Bakery/Dessert'', \<lparr>keyword_list = [''bakery'', ''cupcake'', ''donut'', ''doughnut'',
        ''ice cream'', ''gelato'', ''frozen yogurt'', ''candy'', ''chocolate'', ''sweet'',
        ''pastry'', ''cookies'', ''dessert'', ''confection'', ''cake'', ''fudge'',
        ''yogurt shop''], priority = 3\<rparr>),
     (''Hotel/Lodging'', \<lparr>keyword_list = [''hotel'', ''motel'', ''inn'', ''resort'', ''lodge'',
        ''embassy suites'', ''holiday inn'', ''marriott'', ''hilton'', ''hampton'', ''hyatt'',
        ''sheraton'', ''radisson'', ''comfort inn'', ''best western'', ''la quinta'',
        ''courtyard'', ''residence inn''], priority = 2\<rparr>),
     (''Recreation Facility'', \<lparr>keyword_list = [''bowling'', ''golf'', ''country club'',
        ''athletic club'', ''fitness'', ''gym'', ''pool hall'', ''billiards'', ''skating'',
        ''rink'', ''laser tag'', ''arcade'', ''theater'', ''cinema'', ''ymca'', ''ywca'',
        ''pickleball'', ''tennis club'', ''sports complex''], priority = 1\<rparr>),
     (''Food Truck/Mobile'', \<lparr>keyword_list = [''food truck'', ''mobile'', '' cart'', ''food cart'',
        ''trailer'', ''vendor'', ''mobile kitchen'', ''mobile food''], priority = 0\<rparr>),
     (''Catering'', \<lparr>keyword_list = [''catering'', ''caterer'', ''banquet'', ''event catering''],
        priority = - 1\<rparr>),
     (''Restaurant'', \<lparr>keyword_list = [], priority = - 999\<rparr>)]"

text \<open>
  The inner loop over the keywords of one category. \<open>bestMatch\<close> is the pair of its
  \<open>category\<close> and \<open>priority\<close>. The \<open>break\<close> sits inside the priority test: a keyword
  that occurs while the priority is not greater lets the loop go on.
\<close>

fun scanKeywords :: "string \<Rightarrow> string \<Rightarrow> int \<Rightarrow> string list \<Rightarrow> string \<times> int \<Rightarrow> string \<times> int"
  where
  "scanKeywords text category prio [] bestMatch = bestMatch"
| "scanKeywords text category prio (keyword # rest) bestMatch =
     (if includes_str text (toLowerCase keyword)
      then (if prio > snd bestMatch then (category, prio)
            else scanKeywords text category prio rest bestMatch)
      else scanKeywords text category prio rest bestMatch)"

fun scanCategories :: "string \<Rightarrow> (string \<times> config) list \<Rightarrow> string \<times> int \<Rightarrow> string \<times> int"
  where
  "scanCategories text [] bestMatch = bestMatch"
| "scanCategories text ((category, cfg) # rest) bestMatch =
     scanCategories text rest
       (scanKeywords text category (priority cfg) (keyword_list cfg) bestMatch)"

definition facilityText :: "string \<Rightarrow> string \<Rightarrow> string" where
  "facilityText nm ad = toLowerCase (nm @ '' '' @ ad)"

definition categorizeFacility :: "string \<Rightarrow> string \<Rightarrow> string" where
  "categorizeFacility nm ad =
     fst (scanCategories (facilityText nm ad) FACILITY_CATEGORIES (''Restaurant'', - 999))"

text \<open>Some keyword of the category occurs in the text.\<close>

definition keywordOccurs :: "string \<Rightarrow> config \<Rightarrow> bool" where
  "keywordOccurs text cfg = list_ex (\<lambda>k. includes_str text (toLowerCase k)) (keyword_list cfg)"

section \<open>Records\<close>

text \<open>
  The object pushed by \<open>scrapePageResults\<close>. Records read back from the output file
  have the same shape, but a file written by an earlier version may lack
  \<open>facilityType\<close>, which is therefore optional.
\<close>

record inspectionRecord =
  name :: string
  addr :: string
  phone :: string
  city :: string
  facilityType :: "string option"
  inspectionDate :: string
  inspectionType :: string
  violations :: "violation list"
  closureFlag :: bool
  reinspectionFlag :: bool
  zipCode :: string
  county :: string
  criticalCount :: nat
  noncriticalCount :: nat
  totalViolations :: nat
  riskScore :: int
  riskLevel :: string
  color :: string
  scrapedAt :: string

section \<open>Record extractor\<close>

text \<open>
  One violation row of the modal, as read from the page: the code, and the explanation
  and comments after their labels are stripped.
\<close>

record modalRow =
  rowCode :: string
  rowExplanation :: string
  rowComments :: string

text \<open>The loop of \<open>scrapeViolationsModal\<close> with its set \<open>seenViolations\<close>.\<close>

fun modalViolations :: "modalRow list \<Rightarrow> string list \<Rightarrow> violation list \<Rightarrow> violation list"
  where
  "modalViolations [] seenViolations vs = vs"
| "modalViolations (r # rs) seenViolations vs =
     (if rowCode r \<noteq> [] then
        (let uniqueKey = rowCode r @ ''|'' @ rowExplanation r @ ''|'' @ rowComments r
         in if uniqueKey \<in> set seenViolations then modalViolations rs seenViolations vs
            else modalViolations rs (seenViolations @ [uniqueKey])
                   (vs @ [\<lparr>violationCode = Some (rowCode r), code = None,
                           codeExplanation = rowExplanation r,
                           inspectorComments = rowComments r,
                           section_tag = classifyViolation (rowCode r)\<rparr>]))
      else modalViolations rs seenViolations vs)"

text \<open>
  One row of the results grid, as read from the page. The regular expressions that cut
  name, address, phone and ZIP code out of the first cell, and \<open>extractCity\<close>, are not
  modelled: the row carries their results. \<open>modal\<close> is what the violations modal
  showed, \<open>None\<close> when the click failed or the modal did not appear; \<open>clock\<close> is the
  time stamp taken when the record is built.
\<close>

record gridRow =
  cellCount :: nat
  establishmentName :: string
  address :: string
  rowPhone :: string
  rowCity :: string
  rowZip :: string
  rowInspectionDate :: string
  rowInspectionType :: string
  violationsText :: string
  modal :: "modalRow list option"
  clock :: string

text \<open>A row whose processing throws is caught by the row's \<open>try\<close> and gives no record.\<close>

datatype rowObs = RowThrows | Row gridRow

text \<open>
  The violations of a row: those the modal showed when the violations link has a label
  (\<open>hasViolations\<close>) and the modal could be read, none otherwise.
\<close>

definition rowViolations :: "gridRow \<Rightarrow> violation list" where
  "rowViolations r =
     (let hasViolations = (length (trim (violationsText r)) > 0)
      in if hasViolations
         then (case modal r of None \<Rightarrow> [] | Some ms \<Rightarrow> modalViolations ms [] [])
         else [])"

definition COUNTY :: string where
  "COUNTY = ''Polk''"

definition scrapeRow :: "rowObs \<Rightarrow> inspectionRecord option" where
  "scrapeRow obs =
     (case obs of
        RowThrows \<Rightarrow> None
      | Row r \<Rightarrow>
          if cellCount r < 6 then None
          else if \<not> includes_str (toLowerCase (rowInspectionType r)) ''routine'' then None
          else
            (let vs = rowViolations r;
                 cf = includes_str (toLowerCase (rowInspectionType r)) ''closure'';
                 rf = (includes_str (toLowerCase (rowInspectionType r)) ''follow''
                       \<or> includes_str (toLowerCase (rowInspectionType r)) ''reinspection'');
                 score = calculateRiskScore vs cf rf
             in Some \<lparr>name = establishmentName r, addr = address r, phone = rowPhone r,
                      city = rowCity r,
                      facilityType = Some (categorizeFacility (establishmentName r) (address r)),
                      inspectionDate = rowInspectionDate r,
                      inspectionType = rowInspectionType r,
                      violations = vs, closureFlag = cf, reinspectionFlag = rf,
                      zipCode = rowZip r, county = COUNTY,
                      criticalCount = length (filter (\<lambda>v. section_tag v = ''critical'') vs),
                      noncriticalCount = length (filter (\<lambda>v. section_tag v = ''noncritical'') vs),
                      totalViolations = length vs,
                      riskScore = score, riskLevel = getRiskLevel score, color = getColor score,
                      scrapedAt = clock r\<rparr>))"

fun scrapeRows :: "rowObs list \<Rightarrow> inspectionRecord list \<Rightarrow> inspectionRecord list" where
  "scrapeRows [] results = results"
| "scrapeRows (row # rows) results =
     (case scrapeRow row of
        None \<Rightarrow> scrapeRows rows results
      | Some r \<Rightarrow> scrapeRows rows (results @ [r]))"

definition scrapePageResults :: "rowObs list \<Rightarrow> inspectionRecord list" where
  "scrapePageResults rows = scrapeRows rows []"

section \<open>Crawl loop\<close>

text \<open>
  What one pass of the \<open>while (true)\<close> loop of \<open>scrapeCityWithDateRange\<close> reads from the
  page: the rows of the grid, and the pager row that lies in the main grid (\<open>None\<close> when
  there is none). \<open>spanPage\<close> is \<open>parseInt\<close> of the pager's span, \<open>None\<close> for \<open>NaN\<close>;
  \<open>nextPageExists\<close> and \<open>ellipsisExists\<close> tell whether the link to the next page and the
  ellipsis link are visible; \<open>ellipsisVerified\<close> tells whether the wait after the click on
  the ellipsis succeeded. Driver calls without a handler are taken to return normally.
\<close>

record pagerObs =
  spanPage :: "int option"
  nextPageExists :: bool
  ellipsisExists :: bool
  ellipsisVerified :: bool

record pageObs =
  gridRows :: "rowObs list"
  mainPager :: "pagerObs option"

text \<open>
  The variables of the loop. The counters of duplicates only count up from 0, so they
  are natural numbers; \<open>pageNum\<close> is compared with the page number parsed from the page.
\<close>

record crawlState =
  allResults :: "inspectionRecord list"
  pageNum :: int
  seenEstablishments :: "string list"
  consecutiveDuplicatePages :: nat

definition MAX_DUPLICATE_PAGES :: nat where
  "MAX_DUPLICATE_PAGES = 3"

definition pageKey :: "inspectionRecord \<Rightarrow> string" where
  "pageKey result = name result @ ''|'' @ addr result @ ''|'' @ inspectionDate result"

text \<open>The loop that counts \<open>duplicatesOnPage\<close> and fills the set \<open>seenEstablishments\<close>.\<close>

fun trackDuplicates :: "inspectionRecord list \<Rightarrow> string list \<Rightarrow> nat \<Rightarrow> nat \<times> string list"
  where
  "trackDuplicates [] seen duplicatesOnPage = (duplicatesOnPage, seen)"
| "trackDuplicates (result # rest) seen duplicatesOnPage =
     (if pageKey result \<in> set seen then trackDuplicates rest seen (duplicatesOnPage + 1)
      else trackDuplicates rest (seen @ [pageKey result]) duplicatesOnPage)"

text \<open>The \<open>break\<close> statements of the loop, and the early return on an empty search.\<close>

datatype stop =
  PaginationLoop | NoMainPager | PageMismatch | VerificationFailed | NoMorePages | PageLimit
  | NoRecords

datatype iteration = Continue crawlState | Break stop crawlState

fun stateOf :: "iteration \<Rightarrow> crawlState" where
  "stateOf (Continue st) = st"
| "stateOf (Break reason st) = st"

text \<open>
  A duplicate page: a page with at least one record, all of whose records have keys
  in the set of keys seen before the page.
\<close>

definition duplicatePage :: "string list \<Rightarrow> inspectionRecord list \<Rightarrow> bool" where
  "duplicatePage seen pageResults =
     (pageResults \<noteq> [] \<and> list_all (\<lambda>r. pageKey r \<in> set seen) pageResults)"

text \<open>The part of the loop body after the duplicate check: the pager.\<close>

definition advance :: "crawlState \<Rightarrow> pagerObs option \<Rightarrow> iteration" where
  "advance st pager =
     (case pager of
        None \<Rightarrow> Break NoMainPager st
      | Some p \<Rightarrow>
          (let currentPage = (case spanPage p of None \<Rightarrow> 1 | Some n \<Rightarrow> if n = 0 then 1 else n)
           in if currentPage \<noteq> pageNum st then Break PageMismatch st
              else if \<not> nextPageExists p then
                (if ellipsisExists p then
                   (if \<not> ellipsisVerified p then Break VerificationFailed st
                    else Continue (st\<lparr>pageNum := pageNum st + 1\<rparr>))
                 else Break NoMorePages st)
              else
                (let st' = st\<lparr>pageNum := pageNum st + 1\<rparr>
                 in if pageNum st' > 1000 then Break PageLimit st' else Continue st')))"

definition loopBody :: "crawlState \<Rightarrow> pageObs \<Rightarrow> iteration" where
  "loopBody st obs =
     (let pageResults = scrapePageResults (gridRows obs);
          (duplicatesOnPage, seen) = trackDuplicates pageResults (seenEstablishments st) 0;
          st1 = st\<lparr>allResults := allResults st @ pageResults, seenEstablishments := seen\<rparr>
      in if length pageResults > 0 \<and> duplicatesOnPage = length pageResults then
           (let st2 = st1\<lparr>consecutiveDuplicatePages := consecutiveDuplicatePages st1 + 1\<rparr>
            in if consecutiveDuplicatePages st2 \<ge> MAX_DUPLICATE_PAGES
               then Break PaginationLoop st2
               else advance st2 (mainPager obs))
         else advance (st1\<lparr>consecutiveDuplicatePages := 0\<rparr>) (mainPager obs))"

text \<open>
  The loop over the pages the site serves. The loop has no bound of its own, so a run
  over finitely many pages either has stopped at a \<open>break\<close> or is still running.
\<close>

datatype outcome = Stopped stop crawlState | Running crawlState

fun crawlLoop :: "crawlState \<Rightarrow> pageObs list \<Rightarrow> outcome" where
  "crawlLoop st [] = Running st"
| "crawlLoop st (obs # rest) =
     (case loopBody st obs of
        Break reason st' \<Rightarrow> Stopped reason st'
      | Continue st' \<Rightarrow> crawlLoop st' rest)"

definition initialState :: crawlState where
  "initialState = \<lparr>allResults = [], pageNum = 1, seenEstablishments = [],
                    consecutiveDuplicatePages = 0\<rparr>"

definition scrapeCityWithDateRange :: "bool \<Rightarrow> pageObs list \<Rightarrow> outcome" where
  "scrapeCityWithDateRange noResults pages =
     (if noResults then Stopped NoRecords initialState else crawlLoop initialState pages)"

text \<open>The array the function returns once it has stopped.\<close>

fun returned :: "outcome \<Rightarrow> inspectionRecord list option" where
  "returned (Stopped reason st) = Some (allResults st)"
| "returned (Running st) = None"

section \<open>Dedup and merge\<close>

text \<open>
  \<open>new Date(s)\<close> on a date string is left to the engine, so the time value it gives is
  a parameter \<open>D\<close> of the model: \<open>D s = None\<close> when the date is invalid (its time
  value is \<open>NaN\<close>, and every comparison with it is false).
\<close>

type_synonym dates = "string \<Rightarrow> int option"

definition newer :: "dates \<Rightarrow> string \<Rightarrow> string \<Rightarrow> bool" where
  "newer D current existing =
     (case D current of
        None \<Rightarrow> False
      | Some c \<Rightarrow> (case D existing of None \<Rightarrow> False | Some e \<Rightarrow> c > e))"

definition mergeKey :: "inspectionRecord \<Rightarrow> string" where
  "mergeKey r = trim (toLowerCase (name r)) @ ''|'' @ trim (toLowerCase (addr r))"

text \<open>
  The \<open>Map\<close> \<open>byEstablishment\<close> as a list of entries in insertion order; \<open>Map.set\<close>
  replaces the value of a key in place and appends a new key.
\<close>

fun mapSet :: "string \<Rightarrow> 'v \<Rightarrow> (string \<times> 'v) list \<Rightarrow> (string \<times> 'v) list" where
  "mapSet k v [] = [(k, v)]"
| "mapSet k v ((k', v') # m) = (if k' = k then (k, v) # m else (k', v') # mapSet k v m)"

text \<open>
  The body of the loop over \<open>data\<close>. The records of \<open>data\<close> are distinct objects (each
  comes from an object literal or from \<open>JSON.parse\<close>), so the assignment to
  \<open>existing.facilityType\<close> shows in the output only through the map.
\<close>

definition mergeRecord ::
  "dates \<Rightarrow> (string \<times> inspectionRecord) list \<Rightarrow> inspectionRecord
     \<Rightarrow> (string \<times> inspectionRecord) list" where
  "mergeRecord D byEstablishment r =
     (let key = mergeKey r
      in case map_of byEstablishment key of
           None \<Rightarrow> mapSet key r byEstablishment
         | Some existing \<Rightarrow>
             (let existing' =
                    (if truthy (facilityType r) \<and> \<not> truthy (facilityType existing)
                     then existing\<lparr>facilityType := facilityType r\<rparr> else existing);
                  byEstablishment' = mapSet key existing' byEstablishment
              in if newer D (inspectionDate r) (inspectionDate existing)
                 then mapSet key r byEstablishment' else byEstablishment'))"

definition keepMostRecentInspections :: "dates \<Rightarrow> inspectionRecord list \<Rightarrow> inspectionRecord list"
  where
  "keepMostRecentInspections D data = map snd (fold (\<lambda>r m. mergeRecord D m r) data [])"

text \<open>\<open>existingFile\<close> is the parsed content of the file, \<open>None\<close> when there is no file.\<close>

definition mergeWithExistingData ::
  "dates \<Rightarrow> inspectionRecord list \<Rightarrow> inspectionRecord list option \<Rightarrow> inspectionRecord list"
  where
  "mergeWithExistingData D newData existingFile =
     (case existingFile of
        None \<Rightarrow> newData
      | Some existingData \<Rightarrow> keepMostRecentInspections D (existingData @ newData))"

section \<open>The merge in the words of the specification\<close>

text \<open>
  The specification describes the merge per establishment key: the first record of a key
  is kept; each later record of the key first backfills \<open>facilityType\<close> onto the kept
  record when the kept record lacks it and the new record has it, and then replaces the
  kept record when its inspection date is strictly later. The output has one record per
  key, in the order in which the keys first occur.
\<close>

definition backfill :: "inspectionRecord \<Rightarrow> inspectionRecord \<Rightarrow> inspectionRecord" where
  "backfill kept new =
     (if \<not> truthy (facilityType kept) \<and> truthy (facilityType new)
      then kept\<lparr>facilityType := facilityType new\<rparr> else kept)"

definition spec_step :: "dates \<Rightarrow> inspectionRecord \<Rightarrow> inspectionRecord \<Rightarrow> inspectionRecord" where
  "spec_step D kept new =
     (let kept' = backfill kept new
      in if newer D (inspectionDate new) (inspectionDate kept') then new else kept')"

fun collapseGroup :: "dates \<Rightarrow> inspectionRecord list \<Rightarrow> inspectionRecord option" where
  "collapseGroup D [] = None"
| "collapseGroup D (first # later) = Some (foldl (spec_step D) first later)"

definition firstKeys :: "string list \<Rightarrow> string list" where
  "firstKeys ks = rev (remdups (rev ks))"

definition merge_spec :: "dates \<Rightarrow> inspectionRecord list \<Rightarrow> inspectionRecord list" where
  "merge_spec D data =
     List.map_filter (\<lambda>k. collapseGroup D (filter (\<lambda>r. mergeKey r = k) data))
       (firstKeys (map mergeKey data))"

section \<open>Sample inputs\<close>

text \<open>A grid row with six cells, no violations link text and the given name, date and type.\<close>

definition sampleRow :: "string \<Rightarrow> string \<Rightarrow> string \<Rightarrow> gridRow" where
  "sampleRow nm dt ty =
     \<lparr>cellCount = 6, establishmentName = nm, address = ''123 Main St'', rowPhone = [],
      rowCity = [], rowZip = [], rowInspectionDate = dt, rowInspectionType = ty,
      violationsText = [], modal = None, clock = []\<rparr>"

text \<open>
  A pager that links the pages in blocks of ten, as the grid of the site does: on the
  last page of a block the link to the next page is missing and the ellipsis leads on.
\<close>

definition blockPager :: "int \<Rightarrow> pagerObs" where
  "blockPager k = \<lparr>spanPage = Some k, nextPageExists = (k mod 10 \<noteq> 0), ellipsisExists = True,
                    ellipsisVerified = True\<rparr>"

text \<open>A pager that always links the next page.\<close>

definition linkPager :: "int \<Rightarrow> pagerObs" where
  "linkPager k = \<lparr>spanPage = Some k, nextPageExists = True, ellipsisExists = False,
                   ellipsisVerified = False\<rparr>"

text \<open>Page \<open>k\<close> of a result grid, with the given rows.\<close>

definition blockPage :: "rowObs list \<Rightarrow> nat \<Rightarrow> pageObs" where
  "blockPage rows k = \<lparr>gridRows = rows, mainPager = Some (blockPager (int k))\<rparr>"

definition linkPage :: "rowObs list \<Rightarrow> nat \<Rightarrow> pageObs" where
  "linkPage rows k = \<lparr>gridRows = rows, mainPager = Some (linkPager (int k))\<rparr>"

text \<open>A page showing one establishment, and a page showing it with a second one.\<close>

definition repeatedPage :: "nat \<Rightarrow> pageObs" where
  "repeatedPage k = linkPage [Row (sampleRow ''Diner A'' ''01/02/2025'' ''Routine'')] k"

definition freshPage :: "nat \<Rightarrow> pageObs" where
  "freshPage k = linkPage [Row (sampleRow ''Diner A'' ''01/02/2025'' ''Routine''),
                           Row (sampleRow ''Cafe B'' ''01/05/2025'' ''Routine'')] k"

text \<open>A page showing the second establishment alone.\<close>

definition otherPage :: "nat \<Rightarrow> pageObs" where
  "otherPage k = linkPage [Row (sampleRow ''Cafe B'' ''01/05/2025'' ''Routine'')] k"

text \<open>The time values of two dates, as \<open>new Date(s).getTime()\<close> gives them.\<close>

definition sampleDates :: dates where
  "sampleDates s =
     (if s = ''2024-01-01'' then Some 1704067200000
      else if s = ''2024-06-01'' then Some 1717200000000 else None)"

text \<open>A record without violations, with the given name, date and facility type.\<close>

definition sampleRecord :: "string \<Rightarrow> string \<Rightarrow> string option \<Rightarrow> inspectionRecord" where
  "sampleRecord nm dt ft =
     \<lparr>name = nm, addr = ''123 Main St'', phone = [], city = [], facilityType = ft,
      inspectionDate = dt, inspectionType = ''Routine'', violations = [], closureFlag = False,
      reinspectionFlag = False, zipCode = [], county = ''Polk'', criticalCount = 0,
      noncriticalCount = 0, totalViolations = 0, riskScore = 0, riskLevel = ''EXCELLENT'',
      color = ''green'', scrapedAt = []\<rparr>"

text \<open>Two inspections of one establishment, the later one second.\<close>

definition joeData :: "inspectionRecord list" where
  "joeData = [sampleRecord ''Joe's Diner'' ''2024-01-01'' None,
              sampleRecord ''Joe's Diner'' ''2024-06-01'' None]"

text \<open>An old record without facility type, and an earlier inspection that has one.\<close>

definition backfillData :: "inspectionRecord list" where
  "backfillData = [sampleRecord ''Joe's Diner'' ''2024-06-01'' None,
                   sampleRecord ''JOE'S DINER '' ''2024-01-01'' (Some ''Restaurant'')]"

text \<open>A dataset with one record for each of two establishments.\<close>

definition twoPlaces :: "inspectionRecord list" where
  "twoPlaces = [sampleRecord ''Joe's Diner'' ''2024-06-01'' None,
                sampleRecord ''Cafe B'' ''2024-01-01'' (Some ''Coffee Shop/Cafe'')]"

section \<open>Properties of the string operations\<close>

lemma startsWith_prefix: "startsWith s p = prefix p s"
  by (induction s p rule: startsWith.induct) auto

lemma includes_str_sublist: "includes_str s p = sublist p s"
  by (induction s) (auto simp: startsWith_prefix sublist_Cons_right)

text \<open>A code unit with bit 5 set or bit 6 clear is no capital letter.\<close>

lemma toLowerChar_lower:
  "b5 \<or> \<not> b6 \<Longrightarrow> toLowerChar (Char b0 b1 b2 b3 b4 b5 b6 b7) = Char b0 b1 b2 b3 b4 b5 b6 b7"
  by (cases b0; cases b1; cases b2; cases b3; cases b4; cases b5; cases b6; cases b7;
      simp add: toLowerChar_def)

section \<open>Properties of the violation classifier\<close>

lemma matchesTable_iff:
  "matchesTable t n = (\<exists>c\<in>set t. prefix c n \<or> sublist c n)"
  by (induction t) (auto simp: startsWith_prefix includes_str_sublist)

lemma core_members:
  "\<forall>c\<in>set CORE. classifyViolation c = ''noncritical'' \<and> getViolationPoints c = 1"
  unfolding CORE_def by code_simp

lemma high_members:
  "\<forall>c\<in>set HIGH_PRIORITY. classifyViolation c = ''critical'' \<and> getViolationPoints c = 15"
  unfolding HIGH_PRIORITY_def by code_simp

lemma medium_members:
  "\<forall>c\<in>set MEDIUM_PRIORITY. classifyViolation c = ''critical'' \<and> getViolationPoints c = 8"
  unfolding MEDIUM_PRIORITY_def by code_simp

lemma low_members:
  "\<forall>c\<in>set LOW_PRIORITY. classifyViolation c = ''critical'' \<and> getViolationPoints c = 3"
  unfolding LOW_PRIORITY_def by code_simp

lemma first_table_wins:
  "(matchesTable HIGH_PRIORITY (trim c) \<longrightarrow>
      classifyViolation c = ''critical'' \<and> getViolationPoints c = 15)
   \<and> (\<not> matchesTable HIGH_PRIORITY (trim c) \<and> matchesTable MEDIUM_PRIORITY (trim c) \<longrightarrow>
      classifyViolation c = ''critical'' \<and> getViolationPoints c = 8)
   \<and> (\<not> matchesTable HIGH_PRIORITY (trim c) \<and> \<not> matchesTable MEDIUM_PRIORITY (trim c)
      \<and> matchesTable LOW_PRIORITY (trim c) \<longrightarrow>
      classifyViolation c = ''critical'' \<and> getViolationPoints c = 3)
   \<and> (\<not> matchesTable HIGH_PRIORITY (trim c) \<and> \<not> matchesTable MEDIUM_PRIORITY (trim c)
      \<and> \<not> matchesTable LOW_PRIORITY (trim c) \<and> matchesTable CORE (trim c) \<longrightarrow>
      classifyViolation c = ''noncritical'' \<and> getViolationPoints c = 1)"
  by (simp add: classifyViolation_def getViolationPoints_def Let_def)

text \<open>
  Claim C1. Every code that is an entry of the CORE table is classified \<open>noncritical\<close>
  with 1 point; every entry of the HIGH, MEDIUM and LOW tables is classified \<open>critical\<close>
  with 15, 8 and 3 points. A table matches when one of its entries is a prefix or a
  contiguous part of the trimmed code, and the tables are tried in the order HIGH, MEDIUM,
  LOW, CORE: the first table that matches decides tier and points.
\<close>

theorem table_members_classified:
  "(\<forall>c\<in>set CORE. classifyViolation c = ''noncritical'' \<and> getViolationPoints c = 1)
   \<and> (\<forall>c\<in>set HIGH_PRIORITY. classifyViolation c = ''critical'' \<and> getViolationPoints c = 15)
   \<and> (\<forall>c\<in>set MEDIUM_PRIORITY. classifyViolation c = ''critical'' \<and> getViolationPoints c = 8)
   \<and> (\<forall>c\<in>set LOW_PRIORITY. classifyViolation c = ''critical'' \<and> getViolationPoints c = 3)
   \<and> (\<forall>t n. matchesTable t n = (\<exists>c\<in>set t. prefix c n \<or> sublist c n))
   \<and> (\<forall>c. matchesTable HIGH_PRIORITY (trim c) \<longrightarrow>
          classifyViolation c = ''critical'' \<and> getViolationPoints c = 15)
   \<and> (\<forall>c. \<not> matchesTable HIGH_PRIORITY (trim c) \<and> matchesTable MEDIUM_PRIORITY (trim c) \<longrightarrow>
          classifyViolation c = ''critical'' \<and> getViolationPoints c = 8)
   \<and> (\<forall>c. \<not> matchesTable HIGH_PRIORITY (trim c) \<and> \<not> matchesTable MEDIUM_PRIORITY (trim c)
          \<and> matchesTable LOW_PRIORITY (trim c) \<longrightarrow>
          classifyViolation c = ''critical'' \<and> getViolationPoints c = 3)
   \<and> (\<forall>c. \<not> matchesTable HIGH_PRIORITY (trim c) \<and> \<not> matchesTable MEDIUM_PRIORITY (trim c)
          \<and> \<not> matchesTable LOW_PRIORITY (trim c) \<and> matchesTable CORE (trim c) \<longrightarrow>
          classifyViolation c = ''noncritical'' \<and> getViolationPoints c = 1)"
  by (intro conjI allI core_members high_members medium_members low_members matchesTable_iff
      first_table_wins [THEN conjunct1] first_table_wins [THEN conjunct2, THEN conjunct1]
      first_table_wins [THEN conjunct2, THEN conjunct2, THEN conjunct1]
      first_table_wins [THEN conjunct2, THEN conjunct2, THEN conjunct2])

theorem table_members_classified_witness:
  "''6-301.14'' \<in> set CORE
   \<and> classifyViolation ''6-301.14'' = ''noncritical'' \<and> getViolationPoints ''6-301.14'' = 1
   \<and> ''3-401.11'' \<in> set HIGH_PRIORITY
   \<and> classifyViolation ''3-401.11'' = ''critical'' \<and> getViolationPoints ''3-401.11'' = 15
   \<and> ''4-501.114'' \<in> set MEDIUM_PRIORITY
   \<and> classifyViolation ''4-501.114'' = ''critical'' \<and> getViolationPoints ''4-501.114'' = 8
   \<and> ''4-501.11'' \<in> set LOW_PRIORITY
   \<and> classifyViolation ''4-501.11'' = ''critical'' \<and> getViolationPoints ''4-501.11'' = 3
   \<and> matchesTable HIGH_PRIORITY (trim ''3-501.16(A)(2) observed'')
   \<and> classifyViolation ''3-501.16(A)(2) observed'' = ''critical''
   \<and> getViolationPoints ''3-501.16(A)(2) observed'' = 15
   \<and> \<not> matchesTable HIGH_PRIORITY (trim '' 4-501.114 '')
   \<and> matchesTable MEDIUM_PRIORITY (trim '' 4-501.114 '')
   \<and> matchesTable LOW_PRIORITY (trim '' 4-501.114 '')
   \<and> classifyViolation '' 4-501.114 '' = ''critical'' \<and> getViolationPoints '' 4-501.114 '' = 8
   \<and> \<not> matchesTable HIGH_PRIORITY (trim ''x4-501.11'')
   \<and> \<not> matchesTable MEDIUM_PRIORITY (trim ''x4-501.11'')
   \<and> matchesTable LOW_PRIORITY (trim ''x4-501.11'')
   \<and> classifyViolation ''x4-501.11'' = ''critical'' \<and> getViolationPoints ''x4-501.11'' = 3
   \<and> \<not> matchesTable HIGH_PRIORITY (trim ''see 7-102.11'')
   \<and> \<not> matchesTable MEDIUM_PRIORITY (trim ''see 7-102.11'')
   \<and> \<not> matchesTable LOW_PRIORITY (trim ''see 7-102.11'')
   \<and> matchesTable CORE (trim ''see 7-102.11'')
   \<and> classifyViolation ''see 7-102.11'' = ''noncritical''
   \<and> getViolationPoints ''see 7-102.11'' = 1"
proof -
  note T = table_members_classified
  have m1: "''6-301.14'' \<in> set CORE" by (simp add: CORE_def)
  have m2: "''3-401.11'' \<in> set HIGH_PRIORITY" by (simp add: HIGH_PRIORITY_def)
  have m3: "''4-501.114'' \<in> set MEDIUM_PRIORITY" by (simp add: MEDIUM_PRIORITY_def)
  have m4: "''4-501.11'' \<in> set LOW_PRIORITY" by (simp add: LOW_PRIORITY_def)
  have h1: "matchesTable HIGH_PRIORITY (trim ''3-501.16(A)(2) observed'')" by code_simp
  have h2: "\<not> matchesTable HIGH_PRIORITY (trim '' 4-501.114 '')" by code_simp
  have h3: "matchesTable MEDIUM_PRIORITY (trim '' 4-501.114 '')" by code_simp
  have h4: "matchesTable LOW_PRIORITY (trim '' 4-501.114 '')" by code_simp
  have h5: "\<not> matchesTable HIGH_PRIORITY (trim ''x4-501.11'')" by code_simp
  have h6: "\<not> matchesTable MEDIUM_PRIORITY (trim ''x4-501.11'')" by code_simp
  have h7: "matchesTable LOW_PRIORITY (trim ''x4-501.11'')" by code_simp
  have h8: "\<not> matchesTable HIGH_PRIORITY (trim ''see 7-102.11'')" by code_simp
  have h9: "\<not> matchesTable MEDIUM_PRIORITY (trim ''see 7-102.11'')" by code_simp
  have h10: "\<not> matchesTable LOW_PRIORITY (trim ''see 7-102.11'')" by code_simp
  have h11: "matchesTable CORE (trim ''see 7-102.11'')" by code_simp
  note a1 = T [THEN conjunct1, rule_format, OF m1]
  note a2 = T [THEN conjunct2, THEN conjunct1, rule_format, OF m2]
  note a3 = T [THEN conjunct2, THEN conjunct2, THEN conjunct1, rule_format, OF m3]
  note a4 = T [THEN conjunct2, THEN conjunct2, THEN conjunct2, THEN conjunct1, rule_format, OF m4]
  note R = T [THEN conjunct2, THEN conjunct2, THEN conjunct2, THEN conjunct2, THEN conjunct2]
  note b1 = R [THEN conjunct1, rule_format, OF h1]
  note b2 = R [THEN conjunct2, THEN conjunct1, rule_format, OF conjI [OF h2 h3]]
  note b3 = R [THEN conjunct2, THEN conjunct2, THEN conjunct1, rule_format,
      OF conjI [OF h5 conjI [OF h6 h7]]]
  note b4 = R [THEN conjunct2, THEN conjunct2, THEN conjunct2, rule_format,
      OF conjI [OF h8 conjI [OF h9 conjI [OF h10 h11]]]]
  show ?thesis
    by (intro conjI m1 m2 m3 m4 h1 h2 h3 h4 h5 h6 h7 h8 h9 h10 h11
        a1 [THEN conjunct1] a1 [THEN conjunct2] a2 [THEN conjunct1] a2 [THEN conjunct2]
        a3 [THEN conjunct1] a3 [THEN conjunct2] a4 [THEN conjunct1] a4 [THEN conjunct2]
        b1 [THEN conjunct1] b1 [THEN conjunct2] b2 [THEN conjunct1] b2 [THEN conjunct2]
        b3 [THEN conjunct1] b3 [THEN conjunct2] b4 [THEN conjunct1] b4 [THEN conjunct2])
qed

lemma fallback_rule:
  "\<not> matchesTable HIGH_PRIORITY (trim c) \<and> \<not> matchesTable MEDIUM_PRIORITY (trim c)
     \<and> \<not> matchesTable LOW_PRIORITY (trim c) \<and> \<not> matchesTable CORE (trim c) \<longrightarrow>
   (if \<exists>p\<in>set [''2-'', ''3-'', ''4-'', ''5-'']. prefix p (trim c)
    then classifyViolation c = ''critical'' \<and> getViolationPoints c = 8
    else classifyViolation c = ''noncritical'' \<and> getViolationPoints c = 1)"
  by (simp add: classifyViolation_def getViolationPoints_def Let_def criticalPrefix_def
      startsWith_prefix)

text \<open>
  Claim C2. A code whose trimmed form matches none of the four tables is classified by
  the prefix of that trimmed form: \<open>critical\<close> with 8 points when it starts with
  \<open>2-\<close>, \<open>3-\<close>, \<open>4-\<close> or \<open>5-\<close>, and \<open>noncritical\<close> with 1 point otherwise. The code
  \<open>9-999.99\<close> is \<open>noncritical\<close> with 1 point.
\<close>

theorem fallback_classification:
  "(\<forall>c. \<not> matchesTable HIGH_PRIORITY (trim c) \<and> \<not> matchesTable MEDIUM_PRIORITY (trim c)
        \<and> \<not> matchesTable LOW_PRIORITY (trim c) \<and> \<not> matchesTable CORE (trim c) \<longrightarrow>
        (if \<exists>p\<in>set [''2-'', ''3-'', ''4-'', ''5-'']. prefix p (trim c)
         then classifyViolation c = ''critical'' \<and> getViolationPoints c = 8
         else classifyViolation c = ''noncritical'' \<and> getViolationPoints c = 1))
   \<and> classifyViolation ''9-999.99'' = ''noncritical'' \<and> getViolationPoints ''9-999.99'' = 1"
proof (intro conjI allI)
  show "classifyViolation ''9-999.99'' = ''noncritical''" by code_simp
  show "getViolationPoints ''9-999.99'' = 1" by code_simp
qed (rule fallback_rule)

theorem fallback_classification_witness:
  "\<not> matchesTable HIGH_PRIORITY (trim ''5-999.99'')
   \<and> \<not> matchesTable MEDIUM_PRIORITY (trim ''5-999.99'')
   \<and> \<not> matchesTable LOW_PRIORITY (trim ''5-999.99'')
   \<and> \<not> matchesTable CORE (trim ''5-999.99'')
   \<and> (\<exists>p\<in>set [''2-'', ''3-'', ''4-'', ''5-'']. prefix p (trim ''5-999.99''))
   \<and> classifyViolation ''5-999.99'' = ''critical'' \<and> getViolationPoints ''5-999.99'' = 8
   \<and> \<not> matchesTable HIGH_PRIORITY (trim ''9-999.99'')
   \<and> \<not> matchesTable MEDIUM_PRIORITY (trim ''9-999.99'')
   \<and> \<not> matchesTable LOW_PRIORITY (trim ''9-999.99'')
   \<and> \<not> matchesTable CORE (trim ''9-999.99'')
   \<and> \<not> (\<exists>p\<in>set [''2-'', ''3-'', ''4-'', ''5-'']. prefix p (trim ''9-999.99''))
   \<and> classifyViolation ''9-999.99'' = ''noncritical'' \<and> getViolationPoints ''9-999.99'' = 1"
proof -
  have t5: "trim ''5-999.99'' = ''5-999.99''" by code_simp
  have t9: "trim ''9-999.99'' = ''9-999.99''" by code_simp
  have n5: "\<not> matchesTable HIGH_PRIORITY (trim ''5-999.99'')
     \<and> \<not> matchesTable MEDIUM_PRIORITY (trim ''5-999.99'')
     \<and> \<not> matchesTable LOW_PRIORITY (trim ''5-999.99'')
     \<and> \<not> matchesTable CORE (trim ''5-999.99'')" by code_simp
  have n9: "\<not> matchesTable HIGH_PRIORITY (trim ''9-999.99'')
     \<and> \<not> matchesTable MEDIUM_PRIORITY (trim ''9-999.99'')
     \<and> \<not> matchesTable LOW_PRIORITY (trim ''9-999.99'')
     \<and> \<not> matchesTable CORE (trim ''9-999.99'')" by code_simp
  have p5: "\<exists>p\<in>set [''2-'', ''3-'', ''4-'', ''5-'']. prefix p (trim ''5-999.99'')"
    by (simp add: t5)
  have p9: "\<not> (\<exists>p\<in>set [''2-'', ''3-'', ''4-'', ''5-'']. prefix p (trim ''9-999.99''))"
    by (simp add: t9)
  note F = fallback_classification [THEN conjunct1, rule_format]
  from F [OF n5] p5
  have r5: "classifyViolation ''5-999.99'' = ''critical'' \<and> getViolationPoints ''5-999.99'' = 8"
    by (simp only: if_True)
  from F [OF n9] p9
  have r9: "classifyViolation ''9-999.99'' = ''noncritical''
     \<and> getViolationPoints ''9-999.99'' = 1"
    by (simp only: if_False)
  from n5 p5 r5 n9 p9 r9 show ?thesis by blast
qed

text \<open>
  Claim C10. Tier and points never disagree: a code is \<open>noncritical\<close> exactly when it
  scores 1 point, and \<open>critical\<close> exactly when it scores 3, 8 or 15 points; there is no
  other tier.
\<close>

theorem tier_points_agree:
  "(classifyViolation c = ''noncritical'') = (getViolationPoints c = 1)
   \<and> (classifyViolation c = ''critical'')
       = (getViolationPoints c = 3 \<or> getViolationPoints c = 8 \<or> getViolationPoints c = 15)
   \<and> (classifyViolation c = ''critical'' \<or> classifyViolation c = ''noncritical'')"
  by (simp add: classifyViolation_def getViolationPoints_def Let_def)

section \<open>Properties of the risk score\<close>

lemma points_cases:
  "getViolationPoints c = 15 \<or> getViolationPoints c = 8 \<or> getViolationPoints c = 3
   \<or> getViolationPoints c = 1"
  by (simp add: getViolationPoints_def Let_def)

lemma fold_points:
  "fold (\<lambda>v score. score + getViolationPoints (codeOf v)) vs a
     = a + sum_list (map (\<lambda>v. getViolationPoints (codeOf v)) vs)"
  by (induction vs arbitrary: a) simp_all

lemma sum_points_nonneg: "0 \<le> sum_list (map (\<lambda>v. getViolationPoints (codeOf v)) vs)"
proof (rule sum_list_nonneg)
  fix x assume "x \<in> set (map (\<lambda>v. getViolationPoints (codeOf v)) vs)"
  then obtain v where "x = getViolationPoints (codeOf v)" by auto
  with points_cases [of "codeOf v"] show "0 \<le> x" by auto
qed

text \<open>
  Claim C3. For every list of violations and both flags, the risk score is the sum of
  the points of the violations, plus 50 under the closure flag, plus 10 under the
  reinspection flag, cut off at 100; so it lies between 0 and 100.
\<close>

theorem risk_score_clamped:
  "calculateRiskScore vs cf rf
     = min (sum_list (map (\<lambda>v. getViolationPoints (codeOf v)) vs)
            + (if cf then 50 else 0) + (if rf then 10 else 0)) 100
   \<and> 0 \<le> calculateRiskScore vs cf rf
   \<and> calculateRiskScore vs cf rf \<le> 100"
  using sum_points_nonneg [of vs]
  by (simp add: calculateRiskScore_def Let_def fold_points)

theorem risk_score_clamped_witness:
  "calculateRiskScore
     (replicate 7 \<lparr>violationCode = Some ''3-401.11'', code = None, codeExplanation = [],
                    inspectorComments = [], section_tag = ''critical''\<rparr>) True False = 100
   \<and> calculateRiskScore
     [\<lparr>violationCode = None, code = Some ''6-301.14'', codeExplanation = [],
       inspectorComments = [], section_tag = ''noncritical''\<rparr>] False True = 11"
proof -
  have p: "getViolationPoints ''3-401.11'' = 15" "getViolationPoints ''6-301.14'' = 1"
    by code_simp+
  show ?thesis
    using risk_score_clamped
      [of "replicate 7 \<lparr>violationCode = Some ''3-401.11'', code = None, codeExplanation = [],
                    inspectorComments = [], section_tag = ''critical''\<rparr>" True False]
      risk_score_clamped
      [of "[\<lparr>violationCode = None, code = Some ''6-301.14'', codeExplanation = [],
       inspectorComments = [], section_tag = ''noncritical''\<rparr>]" False True]
    by (simp add: codeOf_def orElse_def p numeral_eq_Suc)
qed


section \<open>Properties of the facility categorizer\<close>

lemma scanKeywords_eq:
  "scanKeywords tx cat prio kws best
     = (if list_ex (\<lambda>k. includes_str tx (toLowerCase k)) kws \<and> prio > snd best
        then (cat, prio) else best)"
  by (induction kws) auto

lemma scanCategories_Cons:
  "scanCategories tx ((cat, cfg) # rest) best
     = scanCategories tx rest
         (if keywordOccurs tx cfg \<and> priority cfg > snd best then (cat, priority cfg) else best)"
  by (simp add: scanKeywords_eq keywordOccurs_def)

lemma scan_characterised:
  "(scanCategories tx table best = best
      \<and> (\<forall>(c, cfg)\<in>set table. keywordOccurs tx cfg \<longrightarrow> priority cfg \<le> snd best))
   \<or> (\<exists>pre c cfg post. table = pre @ (c, cfg) # post
        \<and> scanCategories tx table best = (c, priority cfg)
        \<and> keywordOccurs tx cfg \<and> priority cfg > snd best
        \<and> (\<forall>(c', cfg')\<in>set pre. keywordOccurs tx cfg' \<longrightarrow> priority cfg' < priority cfg)
        \<and> (\<forall>(c', cfg')\<in>set post. keywordOccurs tx cfg' \<longrightarrow> priority cfg' \<le> priority cfg))"
proof (induction table arbitrary: best)
  case Nil
  then show ?case by simp
next
  case (Cons e rest)
  obtain c cfg where e: "e = (c, cfg)" by (cases e)
  let ?b = "if keywordOccurs tx cfg \<and> priority cfg > snd best then (c, priority cfg) else best"
  have step: "scanCategories tx (e # rest) best = scanCategories tx rest ?b"
    by (simp only: e scanCategories_Cons)
  from Cons.IH [of ?b] show ?case
  proof
    assume a: "scanCategories tx rest ?b = ?b
      \<and> (\<forall>(c, cfg)\<in>set rest. keywordOccurs tx cfg \<longrightarrow> priority cfg \<le> snd ?b)"
    show ?thesis
    proof (cases "keywordOccurs tx cfg \<and> priority cfg > snd best")
      case True
      with a step e have "e # rest = [] @ (c, cfg) # rest
        \<and> scanCategories tx (e # rest) best = (c, priority cfg)
        \<and> keywordOccurs tx cfg \<and> priority cfg > snd best
        \<and> (\<forall>(c', cfg')\<in>set []. keywordOccurs tx cfg' \<longrightarrow> priority cfg' < priority cfg)
        \<and> (\<forall>(c', cfg')\<in>set rest. keywordOccurs tx cfg' \<longrightarrow> priority cfg' \<le> priority cfg)"
        by simp
      then show ?thesis by blast
    next
      case False
      with a step e show ?thesis by auto
    qed
  next
    assume "\<exists>pre c' cfg' post. rest = pre @ (c', cfg') # post
        \<and> scanCategories tx rest ?b = (c', priority cfg')
        \<and> keywordOccurs tx cfg' \<and> priority cfg' > snd ?b
        \<and> (\<forall>(c'', cfg'')\<in>set pre. keywordOccurs tx cfg'' \<longrightarrow> priority cfg'' < priority cfg')
        \<and> (\<forall>(c'', cfg'')\<in>set post. keywordOccurs tx cfg'' \<longrightarrow> priority cfg'' \<le> priority cfg')"
    then obtain pre c' cfg' post where r: "rest = pre @ (c', cfg') # post"
      and s: "scanCategories tx rest ?b = (c', priority cfg')"
      and o: "keywordOccurs tx cfg'" and g: "priority cfg' > snd ?b"
      and p1: "\<forall>(c'', cfg'')\<in>set pre. keywordOccurs tx cfg'' \<longrightarrow> priority cfg'' < priority cfg'"
      and p2: "\<forall>(c'', cfg'')\<in>set post. keywordOccurs tx cfg'' \<longrightarrow> priority cfg'' \<le> priority cfg'"
      by blast
    have h: "keywordOccurs tx cfg \<longrightarrow> priority cfg < priority cfg'"
      using g by (auto split: if_splits)
    have g': "priority cfg' > snd best"
      using g by (auto split: if_splits)
    have "e # rest = (e # pre) @ (c', cfg') # post
        \<and> scanCategories tx (e # rest) best = (c', priority cfg')
        \<and> keywordOccurs tx cfg' \<and> priority cfg' > snd best
        \<and> (\<forall>(c'', cfg'')\<in>set (e # pre). keywordOccurs tx cfg'' \<longrightarrow> priority cfg'' < priority cfg')
        \<and> (\<forall>(c'', cfg'')\<in>set post. keywordOccurs tx cfg'' \<longrightarrow> priority cfg'' \<le> priority cfg')"
      using r s o g' p1 p2 h step e by simp
    then show ?thesis by blast
  qed
qed

lemma table_priorities:
  "map (\<lambda>(c, cfg). (c, priority cfg)) FACILITY_CATEGORIES =
     [(''School'', 10), (''Senior/Community Center'', 9), (''Fast Food'', 8),
      (''Gas Station/Convenience'', 7), (''Grocery Store'', 6), (''Bar/Brewery/Distillery'', 5),
      (''Coffee Shop/Cafe'', 4), (''Bakery/Dessert'', 3), (''Hotel/Lodging'', 2),
      (''Recreation Facility'', 1), (''Food Truck/Mobile'', 0), (''Catering'', - 1),
      (''Restaurant'', - 999)]"
  by (simp add: FACILITY_CATEGORIES_def)

lemma distinct_priorities: "distinct (map (\<lambda>(c, cfg). priority cfg) FACILITY_CATEGORIES)"
proof -
  have "map (\<lambda>(c, cfg). priority cfg) FACILITY_CATEGORIES
      = map snd (map (\<lambda>(c, cfg). (c, priority cfg)) FACILITY_CATEGORIES)"
    by (simp add: case_prod_unfold)
  then show ?thesis by (simp add: table_priorities)
qed

lemma distinct_names: "distinct (map fst FACILITY_CATEGORIES)"
proof -
  have "map fst FACILITY_CATEGORIES
      = map fst (map (\<lambda>(c, cfg). (c, priority cfg)) FACILITY_CATEGORIES)"
    by (simp add: case_prod_unfold)
  then show ?thesis by (simp add: table_priorities)
qed

lemma entry_priority:
  assumes "(c, cfg) \<in> set FACILITY_CATEGORIES"
  shows "(c, priority cfg) \<in> set (map (\<lambda>(c, cfg). (c, priority cfg)) FACILITY_CATEGORIES)"
  using assms by force

lemma priority_bounds:
  assumes "(c, cfg) \<in> set FACILITY_CATEGORIES"
  shows "priority cfg \<le> 10" and "c \<noteq> ''Restaurant'' \<Longrightarrow> priority cfg > - 999"
    and "c = ''Restaurant'' \<Longrightarrow> priority cfg = - 999"
  using entry_priority [OF assms] unfolding table_priorities by auto

lemma restaurant_no_keyword:
  assumes "(''Restaurant'', cfg) \<in> set FACILITY_CATEGORIES"
  shows "\<not> keywordOccurs tx cfg"
proof -
  have "(''Restaurant'', \<lparr>keyword_list = [], priority = - 999\<rparr>) \<in> set FACILITY_CATEGORIES"
    by (simp add: FACILITY_CATEGORIES_def)
  with assms distinct_names have "cfg = \<lparr>keyword_list = [], priority = - 999\<rparr>"
    by (meson eq_key_imp_eq_value)
  then show ?thesis by (simp add: keywordOccurs_def)
qed

lemma same_priority_same_entry:
  assumes "(c, cfg) \<in> set FACILITY_CATEGORIES" "(c', cfg') \<in> set FACILITY_CATEGORIES"
    "priority cfg = priority cfg'"
  shows "(c, cfg) = (c', cfg')"
proof -
  have "inj_on (\<lambda>(c, cfg). priority cfg) (set FACILITY_CATEGORIES)"
    using distinct_priorities by (simp add: distinct_map)
  from inj_onD [OF this, of "(c, cfg)" "(c', cfg')"] assms show ?thesis by simp
qed


lemma categorize_characterised:
  fixes nm ad
  defines "tx \<equiv> facilityText nm ad"
  shows "(categorizeFacility nm ad = ''Restaurant''
          \<and> (\<forall>(c, cfg)\<in>set FACILITY_CATEGORIES. \<not> keywordOccurs tx cfg))
     \<or> (\<exists>cfg. (categorizeFacility nm ad, cfg) \<in> set FACILITY_CATEGORIES
          \<and> categorizeFacility nm ad \<noteq> ''Restaurant''
          \<and> keywordOccurs tx cfg
          \<and> (\<forall>(c', cfg')\<in>set FACILITY_CATEGORIES. keywordOccurs tx cfg' \<longrightarrow>
                 c' \<noteq> categorizeFacility nm ad \<longrightarrow> priority cfg' < priority cfg))"
proof -
  let ?r = "scanCategories tx FACILITY_CATEGORIES (''Restaurant'', - 999)"
  have res: "categorizeFacility nm ad = fst ?r"
    by (simp add: categorizeFacility_def tx_def)
  from scan_characterised [of tx FACILITY_CATEGORIES "(''Restaurant'', - 999)"]
  show ?thesis
  proof
    assume a: "?r = (''Restaurant'', - 999)
      \<and> (\<forall>(c, cfg)\<in>set FACILITY_CATEGORIES. keywordOccurs tx cfg \<longrightarrow>
            priority cfg \<le> snd (''Restaurant'', - 999 :: int))"
    have "\<not> keywordOccurs tx cfg" if m: "(c, cfg) \<in> set FACILITY_CATEGORIES" for c cfg
    proof (cases "c = ''Restaurant''")
      case True
      with m restaurant_no_keyword show ?thesis by blast
    next
      case False
      from priority_bounds(2) [OF m False] a m show ?thesis by auto
    qed
    with a res show ?thesis by auto
  next
    assume "\<exists>pre c cfg post. FACILITY_CATEGORIES = pre @ (c, cfg) # post
        \<and> ?r = (c, priority cfg)
        \<and> keywordOccurs tx cfg \<and> priority cfg > snd (''Restaurant'', - 999 :: int)
        \<and> (\<forall>(c', cfg')\<in>set pre. keywordOccurs tx cfg' \<longrightarrow> priority cfg' < priority cfg)
        \<and> (\<forall>(c', cfg')\<in>set post. keywordOccurs tx cfg' \<longrightarrow> priority cfg' \<le> priority cfg)"
    then obtain pre c cfg post where t: "FACILITY_CATEGORIES = pre @ (c, cfg) # post"
      and r: "?r = (c, priority cfg)" and o: "keywordOccurs tx cfg"
      and p1: "\<forall>(c', cfg')\<in>set pre. keywordOccurs tx cfg' \<longrightarrow> priority cfg' < priority cfg"
      and p2: "\<forall>(c', cfg')\<in>set post. keywordOccurs tx cfg' \<longrightarrow> priority cfg' \<le> priority cfg"
      by blast
    have m: "(c, cfg) \<in> set FACILITY_CATEGORIES" by (simp add: t)
    have c: "categorizeFacility nm ad = c" by (simp add: res r)
    have nr: "c \<noteq> ''Restaurant''"
      using m o restaurant_no_keyword by blast
    have "priority cfg' < priority cfg"
      if m': "(c', cfg') \<in> set FACILITY_CATEGORIES" and o': "keywordOccurs tx cfg'"
        and ne: "c' \<noteq> c" for c' cfg'
    proof -
      have "priority cfg' \<le> priority cfg"
        using m' o' p1 p2 unfolding t by auto
      moreover have "priority cfg' \<noteq> priority cfg"
        using same_priority_same_entry [OF m' m] ne by auto
      ultimately show ?thesis by simp
    qed
    with m c nr o show ?thesis by blast
  qed
qed

lemma keywordOccurs_iff:
  "keywordOccurs tx cfg = (\<exists>k\<in>set (keyword_list cfg). sublist (toLowerCase k) tx)"
  by (simp add: keywordOccurs_def list_ex_iff includes_str_sublist)

lemma restaurant_iff:
  "(categorizeFacility nm ad = ''Restaurant'')
     = (\<not> (\<exists>(c, cfg)\<in>set FACILITY_CATEGORIES.
              c \<noteq> ''Restaurant'' \<and> keywordOccurs (facilityText nm ad) cfg))"
  using categorize_characterised [of nm ad] by auto

lemma top_priority_wins:
  assumes m: "(c10, cfg10) \<in> set FACILITY_CATEGORIES" and p: "priority cfg10 = 10"
    and o: "keywordOccurs (facilityText nm ad) cfg10"
  shows "categorizeFacility nm ad = c10"
proof (rule ccontr)
  assume ne: "categorizeFacility nm ad \<noteq> c10"
  from categorize_characterised [of nm ad] m o
  obtain cfg where m': "(categorizeFacility nm ad, cfg) \<in> set FACILITY_CATEGORIES"
    and lt: "\<forall>(c', cfg')\<in>set FACILITY_CATEGORIES. keywordOccurs (facilityText nm ad) cfg' \<longrightarrow>
                 c' \<noteq> categorizeFacility nm ad \<longrightarrow> priority cfg' < priority cfg"
    by blast
  from lt m o ne have "priority cfg10 < priority cfg" by auto
  with p priority_bounds(1) [OF m'] show False by simp
qed

text \<open>
  Claim C4. The category is chosen by priority, not by position in the text. When a
  keyword of a category of priority 10 and a keyword of a category of priority 3 both
  occur in the lowercased concatenation of name and address, the result is the category
  of priority 10. The result is always a category of the table, and every other category
  with a keyword in the text has a strictly smaller priority. \<open>Restaurant\<close> is returned
  exactly when no keyword of another category occurs. For any table and any starting
  candidate, the scan returns the first entry among those of greatest priority that
  occur and beat the starting candidate: entries before it are strictly smaller, entries
  after it are not greater.
\<close>

theorem facility_priority_wins:
  "(\<forall>nm ad c10 cfg10 c3 cfg3.
      (c10, cfg10) \<in> set FACILITY_CATEGORIES \<and> priority cfg10 = 10
      \<and> (c3, cfg3) \<in> set FACILITY_CATEGORIES \<and> priority cfg3 = 3
      \<and> keywordOccurs (facilityText nm ad) cfg10 \<and> keywordOccurs (facilityText nm ad) cfg3
      \<longrightarrow> categorizeFacility nm ad = c10)
   \<and> (\<forall>nm ad.
        (categorizeFacility nm ad = ''Restaurant''
          \<and> (\<forall>(c, cfg)\<in>set FACILITY_CATEGORIES. \<not> keywordOccurs (facilityText nm ad) cfg))
        \<or> (\<exists>cfg. (categorizeFacility nm ad, cfg) \<in> set FACILITY_CATEGORIES
              \<and> categorizeFacility nm ad \<noteq> ''Restaurant''
              \<and> keywordOccurs (facilityText nm ad) cfg
              \<and> (\<forall>(c', cfg')\<in>set FACILITY_CATEGORIES.
                    keywordOccurs (facilityText nm ad) cfg' \<longrightarrow>
                    c' \<noteq> categorizeFacility nm ad \<longrightarrow> priority cfg' < priority cfg)))
   \<and> (\<forall>nm ad. (categorizeFacility nm ad = ''Restaurant'')
        = (\<not> (\<exists>(c, cfg)\<in>set FACILITY_CATEGORIES.
                 c \<noteq> ''Restaurant'' \<and> keywordOccurs (facilityText nm ad) cfg)))
   \<and> (\<forall>tx table best.
        (scanCategories tx table best = best
          \<and> (\<forall>(c, cfg)\<in>set table. keywordOccurs tx cfg \<longrightarrow> priority cfg \<le> snd best))
        \<or> (\<exists>pre c cfg post. table = pre @ (c, cfg) # post
              \<and> scanCategories tx table best = (c, priority cfg)
              \<and> keywordOccurs tx cfg \<and> priority cfg > snd best
              \<and> (\<forall>(c', cfg')\<in>set pre. keywordOccurs tx cfg' \<longrightarrow> priority cfg' < priority cfg)
              \<and> (\<forall>(c', cfg')\<in>set post. keywordOccurs tx cfg' \<longrightarrow>
                    priority cfg' \<le> priority cfg)))
   \<and> (\<forall>tx cfg. keywordOccurs tx cfg
        = (\<exists>k\<in>set (keyword_list cfg). sublist (toLowerCase k) tx))
   \<and> (\<forall>nm ad. facilityText nm ad = toLowerCase (nm @ '' '' @ ad))"
proof (intro conjI allI impI)
  fix nm ad c10 cfg10 c3 cfg3
  assume "(c10, cfg10) \<in> set FACILITY_CATEGORIES \<and> priority cfg10 = 10
      \<and> (c3, cfg3) \<in> set FACILITY_CATEGORIES \<and> priority cfg3 = 3
      \<and> keywordOccurs (facilityText nm ad) cfg10 \<and> keywordOccurs (facilityText nm ad) cfg3"
  then show "categorizeFacility nm ad = c10"
    using top_priority_wins by blast
next
  fix nm ad
  show "(categorizeFacility nm ad = ''Restaurant''
          \<and> (\<forall>(c, cfg)\<in>set FACILITY_CATEGORIES. \<not> keywordOccurs (facilityText nm ad) cfg))
        \<or> (\<exists>cfg. (categorizeFacility nm ad, cfg) \<in> set FACILITY_CATEGORIES
              \<and> categorizeFacility nm ad \<noteq> ''Restaurant''
              \<and> keywordOccurs (facilityText nm ad) cfg
              \<and> (\<forall>(c', cfg')\<in>set FACILITY_CATEGORIES.
                    keywordOccurs (facilityText nm ad) cfg' \<longrightarrow>
                    c' \<noteq> categorizeFacility nm ad \<longrightarrow> priority cfg' < priority cfg))"
    by (rule categorize_characterised)
next
  fix nm ad
  show "(categorizeFacility nm ad = ''Restaurant'')
        = (\<not> (\<exists>(c, cfg)\<in>set FACILITY_CATEGORIES.
                 c \<noteq> ''Restaurant'' \<and> keywordOccurs (facilityText nm ad) cfg))"
    by (rule restaurant_iff)
next
  fix tx table best
  show "(scanCategories tx table best = best
          \<and> (\<forall>(c, cfg)\<in>set table. keywordOccurs tx cfg \<longrightarrow> priority cfg \<le> snd best))
        \<or> (\<exists>pre c cfg post. table = pre @ (c, cfg) # post
              \<and> scanCategories tx table best = (c, priority cfg)
              \<and> keywordOccurs tx cfg \<and> priority cfg > snd best
              \<and> (\<forall>(c', cfg')\<in>set pre. keywordOccurs tx cfg' \<longrightarrow> priority cfg' < priority cfg)
              \<and> (\<forall>(c', cfg')\<in>set post. keywordOccurs tx cfg' \<longrightarrow>
                    priority cfg' \<le> priority cfg))"
    by (rule scan_characterised)
next
  fix tx cfg
  show "keywordOccurs tx cfg = (\<exists>k\<in>set (keyword_list cfg). sublist (toLowerCase k) tx)"
    by (rule keywordOccurs_iff)
next
  fix nm ad
  show "facilityText nm ad = toLowerCase (nm @ '' '' @ ad)"
    by (rule facilityText_def)
qed


lemma example_fast_food: "categorizeFacility ''McDonald's #4213'' [] = ''Fast Food''"
proof -
  have "facilityText ''McDonald's #4213'' [] = ''mcdonald's #4213 ''" by code_simp
  then show ?thesis
    by (simp add: categorizeFacility_def FACILITY_CATEGORIES_def toLowerCase_def
        toLowerChar_lower)
qed

theorem facility_priority_wins_witness:
  "(''School'', snd (FACILITY_CATEGORIES ! 0)) \<in> set FACILITY_CATEGORIES
   \<and> priority (snd (FACILITY_CATEGORIES ! 0)) = 10
   \<and> (''Bakery/Dessert'', snd (FACILITY_CATEGORIES ! 7)) \<in> set FACILITY_CATEGORIES
   \<and> priority (snd (FACILITY_CATEGORIES ! 7)) = 3
   \<and> keywordOccurs (facilityText ''Cake School'' []) (snd (FACILITY_CATEGORIES ! 0))
   \<and> keywordOccurs (facilityText ''Cake School'' []) (snd (FACILITY_CATEGORIES ! 7))
   \<and> categorizeFacility ''Cake School'' [] = ''School''
   \<and> keywordOccurs (facilityText ''School Cake'' []) (snd (FACILITY_CATEGORIES ! 0))
   \<and> keywordOccurs (facilityText ''School Cake'' []) (snd (FACILITY_CATEGORIES ! 7))
   \<and> categorizeFacility ''School Cake'' [] = ''School''
   \<and> \<not> (\<exists>(c, cfg)\<in>set FACILITY_CATEGORIES.
           c \<noteq> ''Restaurant'' \<and> keywordOccurs (facilityText ''Zoe'' []) cfg)
   \<and> categorizeFacility ''Zoe'' [] = ''Restaurant''"
proof -
  note T = facility_priority_wins
  have m10: "(''School'', snd (FACILITY_CATEGORIES ! 0)) \<in> set FACILITY_CATEGORIES"
    by (simp add: FACILITY_CATEGORIES_def)
  have p10: "priority (snd (FACILITY_CATEGORIES ! 0)) = 10"
    by (simp add: FACILITY_CATEGORIES_def)
  have m3: "(''Bakery/Dessert'', snd (FACILITY_CATEGORIES ! 7)) \<in> set FACILITY_CATEGORIES"
    by (simp add: FACILITY_CATEGORIES_def)
  have p3: "priority (snd (FACILITY_CATEGORIES ! 7)) = 3"
    by (simp add: FACILITY_CATEGORIES_def)
  have fa: "facilityText ''Cake School'' [] = ''cake school ''" by code_simp
  have fb: "facilityText ''School Cake'' [] = ''school cake ''" by code_simp
  have fz: "facilityText ''Zoe'' [] = ''zoe ''" by code_simp
  have a10: "keywordOccurs (facilityText ''Cake School'' []) (snd (FACILITY_CATEGORIES ! 0))"
    by (simp add: fa FACILITY_CATEGORIES_def keywordOccurs_def toLowerCase_def
        toLowerChar_lower)
  have a3: "keywordOccurs (facilityText ''Cake School'' []) (snd (FACILITY_CATEGORIES ! 7))"
    by (simp add: fa FACILITY_CATEGORIES_def keywordOccurs_def toLowerCase_def
        toLowerChar_lower)
  have b10: "keywordOccurs (facilityText ''School Cake'' []) (snd (FACILITY_CATEGORIES ! 0))"
    by (simp add: fb FACILITY_CATEGORIES_def keywordOccurs_def toLowerCase_def
        toLowerChar_lower)
  have b3: "keywordOccurs (facilityText ''School Cake'' []) (snd (FACILITY_CATEGORIES ! 7))"
    by (simp add: fb FACILITY_CATEGORIES_def keywordOccurs_def toLowerCase_def
        toLowerChar_lower)
  have z: "\<not> (\<exists>(c, cfg)\<in>set FACILITY_CATEGORIES.
           c \<noteq> ''Restaurant'' \<and> keywordOccurs (facilityText ''Zoe'' []) cfg)"
    by (simp add: fz FACILITY_CATEGORIES_def keywordOccurs_def toLowerCase_def
        toLowerChar_lower)
  note ra = T [THEN conjunct1, rule_format,
      OF conjI [OF m10 conjI [OF p10 conjI [OF m3 conjI [OF p3 conjI [OF a10 a3]]]]]]
  note rb = T [THEN conjunct1, rule_format,
      OF conjI [OF m10 conjI [OF p10 conjI [OF m3 conjI [OF p3 conjI [OF b10 b3]]]]]]
  have rz: "categorizeFacility ''Zoe'' [] = ''Restaurant''"
    using T [THEN conjunct2, THEN conjunct2, THEN conjunct1, rule_format, of "''Zoe''" "[]"] z
    by blast
  show ?thesis
    by (intro conjI m10 p10 m3 p3 a10 a3 b10 b3 z ra rb rz)
qed


section \<open>Properties of the record extractor\<close>

lemma scrapeRows_map_filter: "scrapeRows rows acc = acc @ List.map_filter scrapeRow rows"
  by (induction rows arbitrary: acc) (auto split: option.splits)

lemma scrapePageResults_map_filter: "scrapePageResults rows = List.map_filter scrapeRow rows"
  by (simp add: scrapePageResults_def scrapeRows_map_filter)

lemma scrapePageResults_append:
  "scrapePageResults (rows1 @ rows2) = scrapePageResults rows1 @ scrapePageResults rows2"
  by (simp add: scrapePageResults_map_filter map_filter_def)

lemma scrapePageResults_Cons:
  "scrapePageResults (row # rows)
     = (case scrapeRow row of None \<Rightarrow> [] | Some r \<Rightarrow> [r]) @ scrapePageResults rows"
  by (simp add: scrapePageResults_map_filter split: option.splits)

lemma non_routine_row_dropped:
  "\<not> includes_str (toLowerCase (rowInspectionType r)) ''routine'' \<Longrightarrow> scrapeRow (Row r) = None"
  by (simp add: scrapeRow_def)

lemma scrapeRow_fields:
  assumes "scrapeRow obs = Some rc"
  shows "\<exists>r. obs = Row r \<and> cellCount r \<ge> 6
    \<and> includes_str (toLowerCase (rowInspectionType r)) ''routine''
    \<and> name rc = establishmentName r \<and> addr rc = address r
    \<and> inspectionDate rc = rowInspectionDate r \<and> inspectionType rc = rowInspectionType r"
proof (cases obs)
  case RowThrows
  with assms show ?thesis by (simp add: scrapeRow_def)
next
  case (Row r)
  have c: "\<not> cellCount r < 6"
  proof
    assume "cellCount r < 6"
    then have "scrapeRow (Row r) = None" by (simp add: scrapeRow_def)
    with assms Row show False by simp
  qed
  have i: "includes_str (toLowerCase (rowInspectionType r)) ''routine''"
  proof (rule ccontr)
    assume "\<not> includes_str (toLowerCase (rowInspectionType r)) ''routine''"
    then have "scrapeRow (Row r) = None" by (simp add: scrapeRow_def)
    with assms Row show False by simp
  qed
  have "name (the (scrapeRow (Row r))) = establishmentName r
    \<and> addr (the (scrapeRow (Row r))) = address r
    \<and> inspectionDate (the (scrapeRow (Row r))) = rowInspectionDate r
    \<and> inspectionType (the (scrapeRow (Row r))) = rowInspectionType r"
    using c i by (simp add: scrapeRow_def Let_def)
  with assms Row have "name rc = establishmentName r \<and> addr rc = address r
    \<and> inspectionDate rc = rowInspectionDate r \<and> inspectionType rc = rowInspectionType r"
    by simp
  then show ?thesis using Row c i by auto
qed

lemma sublist_map_iff: "sublist p (map f t) = (\<exists>u. sublist u t \<and> map f u = p)"
proof
  assume "sublist p (map f t)"
  then obtain ps ss where "map f t = ps @ p @ ss" by (auto simp: sublist_def)
  then obtain a vs where t: "t = a @ vs" and v: "p @ ss = map f vs"
    unfolding map_eq_append_conv by blast
  from v obtain b c where "vs = b @ c" "p = map f b"
    unfolding append_eq_map_conv by blast
  with t have "t = a @ b @ c" "map f b = p" by simp_all
  then show "\<exists>u. sublist u t \<and> map f u = p" unfolding sublist_def by blast
next
  assume "\<exists>u. sublist u t \<and> map f u = p"
  then obtain u ps ss where "p = map f u" "t = ps @ u @ ss" unfolding sublist_def by blast
  then have "map f t = map f ps @ p @ map f ss" by simp
  then show "sublist p (map f t)" unfolding sublist_def by blast
qed

text \<open>
  Claim C9. A row whose inspection type does not contain \<open>routine\<close>, in any mix of
  capitals and small letters, is skipped: it gives no record, the results of the page
  are those of the page without the row, and every record of the results comes from a
  row whose inspection type contains \<open>routine\<close>.
\<close>

theorem non_routine_rows_skipped:
  "(\<forall>r. \<not> includes_str (toLowerCase (rowInspectionType r)) ''routine'' \<longrightarrow>
        scrapeRow (Row r) = None)
   \<and> (\<forall>r rows1 rows2. \<not> includes_str (toLowerCase (rowInspectionType r)) ''routine'' \<longrightarrow>
        scrapePageResults (rows1 @ Row r # rows2) = scrapePageResults (rows1 @ rows2))
   \<and> (\<forall>rows rc. rc \<in> set (scrapePageResults rows) \<longrightarrow>
        includes_str (toLowerCase (inspectionType rc)) ''routine'')
   \<and> (\<forall>t. includes_str (toLowerCase t) ''routine''
        = (\<exists>u. sublist u t \<and> toLowerCase u = ''routine''))"
proof (intro conjI allI impI)
  fix r :: gridRow
  assume "\<not> includes_str (toLowerCase (rowInspectionType r)) ''routine''"
  then show "scrapeRow (Row r) = None" by (rule non_routine_row_dropped)
next
  fix r :: gridRow and rows1 rows2
  assume "\<not> includes_str (toLowerCase (rowInspectionType r)) ''routine''"
  then have "scrapeRow (Row r) = None" by (rule non_routine_row_dropped)
  then show "scrapePageResults (rows1 @ Row r # rows2) = scrapePageResults (rows1 @ rows2)"
    by (simp add: scrapePageResults_append scrapePageResults_Cons)
next
  fix rows rc
  assume "rc \<in> set (scrapePageResults rows)"
  then obtain obs where "scrapeRow obs = Some rc"
    by (auto simp: scrapePageResults_map_filter map_filter_def)
  then show "includes_str (toLowerCase (inspectionType rc)) ''routine''"
    using scrapeRow_fields by fastforce
next
  fix t
  show "includes_str (toLowerCase t) ''routine''
        = (\<exists>u. sublist u t \<and> toLowerCase u = ''routine'')"
    by (simp add: includes_str_sublist toLowerCase_def sublist_map_iff)
qed

theorem non_routine_rows_skipped_witness:
  "\<not> includes_str (toLowerCase (rowInspectionType (sampleRow ''Cafe B'' ''01/02/2025'' ''Follow-Up'')))
       ''routine''
   \<and> scrapeRow (Row (sampleRow ''Cafe B'' ''01/02/2025'' ''Follow-Up'')) = None
   \<and> scrapePageResults
        ([Row (sampleRow ''Diner A'' ''01/02/2025'' ''ROUTINE'')]
         @ Row (sampleRow ''Cafe B'' ''01/02/2025'' ''Follow-Up'')
         # [Row (sampleRow ''Diner C'' ''01/03/2025'' ''Routine'')])
     = scrapePageResults
        ([Row (sampleRow ''Diner A'' ''01/02/2025'' ''ROUTINE'')]
         @ [Row (sampleRow ''Diner C'' ''01/03/2025'' ''Routine'')])
   \<and> map name (scrapePageResults
        ([Row (sampleRow ''Diner A'' ''01/02/2025'' ''ROUTINE'')]
         @ Row (sampleRow ''Cafe B'' ''01/02/2025'' ''Follow-Up'')
         # [Row (sampleRow ''Diner C'' ''01/03/2025'' ''Routine'')])) = [''Diner A'', ''Diner C'']"
proof -
  have h: "\<not> includes_str
      (toLowerCase (rowInspectionType (sampleRow ''Cafe B'' ''01/02/2025'' ''Follow-Up'')))
      ''routine''"
    by code_simp
  note a = non_routine_rows_skipped [THEN conjunct1, rule_format, OF h]
  note b = non_routine_rows_skipped [THEN conjunct2, THEN conjunct1, rule_format, OF h,
      of "[Row (sampleRow ''Diner A'' ''01/02/2025'' ''ROUTINE'')]"
         "[Row (sampleRow ''Diner C'' ''01/03/2025'' ''Routine'')]"]
  have r1: "includes_str (toLowerCase ''ROUTINE'') ''routine''" by code_simp
  have r2: "includes_str (toLowerCase ''Routine'') ''routine''" by code_simp
  have c: "map name (scrapePageResults
        ([Row (sampleRow ''Diner A'' ''01/02/2025'' ''ROUTINE'')]
         @ [Row (sampleRow ''Diner C'' ''01/03/2025'' ''Routine'')])) = [''Diner A'', ''Diner C'']"
    by (simp add: scrapePageResults_Cons scrapeRow_def sampleRow_def r1 r2 Let_def
        scrapePageResults_def)
  from c have d: "map name (scrapePageResults
        ([Row (sampleRow ''Diner A'' ''01/02/2025'' ''ROUTINE'')]
         @ Row (sampleRow ''Cafe B'' ''01/02/2025'' ''Follow-Up'')
         # [Row (sampleRow ''Diner C'' ''01/03/2025'' ''Routine'')])) = [''Diner A'', ''Diner C'']"
    by (simp only: b)
  show ?thesis by (intro conjI h a b d)
qed


section \<open>Properties of the crawl loop\<close>

lemma trackDuplicates_bound: "fst (trackDuplicates rs seen d) \<le> d + length rs"
proof (induction rs arbitrary: seen d)
  case Nil
  then show ?case by simp
next
  case (Cons r rs)
  from Cons.IH [of seen "d + 1"] Cons.IH [of "seen @ [pageKey r]" d]
  show ?case by auto
qed

lemma trackDuplicates_all:
  "(fst (trackDuplicates rs seen d) = d + length rs) = list_all (\<lambda>r. pageKey r \<in> set seen) rs"
proof (induction rs arbitrary: seen d)
  case Nil
  then show ?case by simp
next
  case (Cons r rs)
  show ?case
  proof (cases "pageKey r \<in> set seen")
    case True
    with Cons.IH [of seen "d + 1"] show ?thesis by simp
  next
    case False
    with trackDuplicates_bound [of rs "seen @ [pageKey r]" d] show ?thesis by simp
  qed
qed

lemma trackDuplicates_seen_same:
  "list_all (\<lambda>r. pageKey r \<in> set seen) rs \<Longrightarrow> snd (trackDuplicates rs seen d) = seen"
  by (induction rs arbitrary: d) simp_all

lemma trackDuplicates_seen: "set (snd (trackDuplicates rs seen d)) = set seen \<union> pageKey ` set rs"
  by (induction rs arbitrary: seen d) auto

lemma advance_not_loop: "advance st p \<noteq> Break PaginationLoop s"
  by (simp add: advance_def Let_def split: option.splits)

lemma advance_state:
  "consecutiveDuplicatePages (stateOf (advance st p)) = consecutiveDuplicatePages st
   \<and> seenEstablishments (stateOf (advance st p)) = seenEstablishments st
   \<and> allResults (stateOf (advance st p)) = allResults st"
  by (simp add: advance_def Let_def split: option.splits)

text \<open>The loop body on a duplicate page and on any other page.\<close>

lemma loopBody_duplicate:
  assumes "duplicatePage (seenEstablishments st) (scrapePageResults (gridRows obs))"
  shows "loopBody st obs =
    (let st2 = st\<lparr>allResults := allResults st @ scrapePageResults (gridRows obs),
                   consecutiveDuplicatePages := consecutiveDuplicatePages st + 1\<rparr>
     in if consecutiveDuplicatePages st + 1 \<ge> 3 then Break PaginationLoop st2
        else advance st2 (mainPager obs))"
proof -
  let ?rs = "scrapePageResults (gridRows obs)"
  obtain d seen where t: "trackDuplicates ?rs (seenEstablishments st) 0 = (d, seen)"
    by (cases "trackDuplicates ?rs (seenEstablishments st) 0")
  from assms have a: "list_all (\<lambda>r. pageKey r \<in> set (seenEstablishments st)) ?rs" and n: "?rs \<noteq> []"
    by (simp_all add: duplicatePage_def)
  from trackDuplicates_all [of ?rs "seenEstablishments st" 0] a t have d: "d = length ?rs"
    by simp
  from trackDuplicates_seen_same [OF a, of 0] t have s: "seen = seenEstablishments st"
    by simp
  show ?thesis
    using n by (simp add: loopBody_def t d s Let_def MAX_DUPLICATE_PAGES_def)
qed

lemma loopBody_other:
  assumes "\<not> duplicatePage (seenEstablishments st) (scrapePageResults (gridRows obs))"
  shows "loopBody st obs =
    advance (st\<lparr>allResults := allResults st @ scrapePageResults (gridRows obs),
                seenEstablishments :=
                  snd (trackDuplicates (scrapePageResults (gridRows obs)) (seenEstablishments st) 0),
                consecutiveDuplicatePages := 0\<rparr>) (mainPager obs)"
proof -
  let ?rs = "scrapePageResults (gridRows obs)"
  obtain d seen where t: "trackDuplicates ?rs (seenEstablishments st) 0 = (d, seen)"
    by (cases "trackDuplicates ?rs (seenEstablishments st) 0")
  from trackDuplicates_all [of ?rs "seenEstablishments st" 0] assms t
  have "?rs = [] \<or> d \<noteq> length ?rs"
    by (auto simp: duplicatePage_def)
  then show ?thesis
    by (auto simp: loopBody_def t Let_def)
qed

lemma loopBody_counter:
  "consecutiveDuplicatePages (stateOf (loopBody st obs))
     = (if duplicatePage (seenEstablishments st) (scrapePageResults (gridRows obs))
        then consecutiveDuplicatePages st + 1 else 0)"
  by (simp add: loopBody_duplicate loopBody_other advance_state Let_def)

lemma loopBody_seen:
  "duplicatePage (seenEstablishments st) (scrapePageResults (gridRows obs)) \<Longrightarrow>
   seenEstablishments (stateOf (loopBody st obs)) = seenEstablishments st"
  by (simp add: loopBody_duplicate advance_state Let_def)

lemma loopBody_loop_iff:
  "(\<exists>s. loopBody st obs = Break PaginationLoop s)
     = (duplicatePage (seenEstablishments st) (scrapePageResults (gridRows obs))
        \<and> consecutiveDuplicatePages st + 1 \<ge> 3)"
  by (cases "duplicatePage (seenEstablishments st) (scrapePageResults (gridRows obs))")
    (auto simp: loopBody_duplicate loopBody_other advance_not_loop Let_def)


lemma loopBody_results:
  "allResults (stateOf (loopBody st obs)) = allResults st @ scrapePageResults (gridRows obs)"
  by (cases "duplicatePage (seenEstablishments st) (scrapePageResults (gridRows obs))")
    (simp_all add: loopBody_duplicate loopBody_other advance_state Let_def)

lemma new_record_no_duplicatePage:
  "\<exists>r\<in>set rs. pageKey r \<notin> set seen \<Longrightarrow> \<not> duplicatePage seen rs"
  by (auto simp: duplicatePage_def list_all_iff)

lemma three_duplicate_pages_from:
  assumes run: "crawlLoop st [p1, p2] = Running st2"
    and d1: "duplicatePage (seenEstablishments st) (scrapePageResults (gridRows p1))"
    and d2: "duplicatePage (seenEstablishments st) (scrapePageResults (gridRows p2))"
    and d3: "duplicatePage (seenEstablishments st) (scrapePageResults (gridRows p3))"
  shows "\<exists>s. crawlLoop st (p1 # p2 # p3 # rest) = Stopped PaginationLoop s
    \<and> allResults s = allResults st @ scrapePageResults (gridRows p1)
        @ scrapePageResults (gridRows p2) @ scrapePageResults (gridRows p3)"
proof -
  from run obtain st1 where b1: "loopBody st p1 = Continue st1"
    by (cases "loopBody st p1") simp_all
  with run have b2: "loopBody st1 p2 = Continue st2"
    by (cases "loopBody st1 p2") simp_all
  from loopBody_seen [OF d1] b1 have s1: "seenEstablishments st1 = seenEstablishments st"
    by simp
  from loopBody_seen [of st1 p2] d2 s1 b2 have s2: "seenEstablishments st2 = seenEstablishments st"
    by simp
  from loopBody_results [of st p1] b1
  have r1: "allResults st1 = allResults st @ scrapePageResults (gridRows p1)" by simp
  from loopBody_results [of st1 p2] b2
  have r2: "allResults st2 = allResults st1 @ scrapePageResults (gridRows p2)" by simp
  from loopBody_counter [of st p1] d1 b1
  have c1: "consecutiveDuplicatePages st1 = consecutiveDuplicatePages st + 1" by simp
  from loopBody_counter [of st1 p2] d2 s1 b2
  have c2: "consecutiveDuplicatePages st2 = consecutiveDuplicatePages st1 + 1" by simp
  from d3 s2 have d3': "duplicatePage (seenEstablishments st2) (scrapePageResults (gridRows p3))"
    by simp
  from c1 c2 have "consecutiveDuplicatePages st2 + 1 \<ge> 3" by simp
  with d3' loopBody_loop_iff [of st2 p3]
  obtain s where b3: "loopBody st2 p3 = Break PaginationLoop s" by blast
  from loopBody_results [of st2 p3] b3
  have r3: "allResults s = allResults st2 @ scrapePageResults (gridRows p3)" by simp
  have "crawlLoop st (p1 # p2 # p3 # rest) = Stopped PaginationLoop s"
    by (simp add: b1 b2 b3)
  with r1 r2 r3 show ?thesis by simp
qed

lemma three_duplicate_pages_stop:
  assumes d1: "duplicatePage (seenEstablishments st) (scrapePageResults (gridRows p1))"
    and d2: "duplicatePage (seenEstablishments st) (scrapePageResults (gridRows p2))"
    and d3: "duplicatePage (seenEstablishments st) (scrapePageResults (gridRows p3))"
  shows "\<exists>reason s. crawlLoop st (p1 # p2 # p3 # rest) = Stopped reason s"
proof (cases "loopBody st p1")
  case (Break reason s)
  then show ?thesis by simp
next
  case c1: (Continue st1)
  show ?thesis
  proof (cases "loopBody st1 p2")
    case (Break reason s)
    with c1 show ?thesis by simp
  next
    case c2: (Continue st2)
    with c1 have "crawlLoop st [p1, p2] = Running st2" by simp
    from three_duplicate_pages_from [OF this d1 d2 d3, of rest] show ?thesis by blast
  qed
qed

lemma two_duplicate_pages_then_new:
  assumes z: "consecutiveDuplicatePages st = 0"
    and d1: "duplicatePage (seenEstablishments st) (scrapePageResults (gridRows p1))"
    and d2: "duplicatePage (seenEstablishments st) (scrapePageResults (gridRows p2))"
    and n3: "\<exists>r\<in>set (scrapePageResults (gridRows p3)). pageKey r \<notin> set (seenEstablishments st)"
  shows "crawlLoop st [p1, p2, p3] \<noteq> Stopped PaginationLoop s"
proof (cases "loopBody st p1")
  case (Break reason s')
  with loopBody_loop_iff [of st p1] z have "reason \<noteq> PaginationLoop" by auto
  with Break show ?thesis by simp
next
  case c1: (Continue st1)
  from loopBody_seen [OF d1] c1 have s1: "seenEstablishments st1 = seenEstablishments st"
    by simp
  from loopBody_counter [of st p1] d1 c1 z
  have k1: "consecutiveDuplicatePages st1 = 1" by simp
  show ?thesis
  proof (cases "loopBody st1 p2")
    case (Break reason s')
    with loopBody_loop_iff [of st1 p2] k1 have "reason \<noteq> PaginationLoop" by auto
    with Break c1 show ?thesis by simp
  next
    case c2: (Continue st2)
    from loopBody_seen [of st1 p2] d2 s1 c2
    have s2: "seenEstablishments st2 = seenEstablishments st" by simp
    from n3 s2 have "\<not> duplicatePage (seenEstablishments st2) (scrapePageResults (gridRows p3))"
      by (simp add: new_record_no_duplicatePage)
    with loopBody_loop_iff [of st2 p3]
    have nl: "\<And>s'. loopBody st2 p3 \<noteq> Break PaginationLoop s'" by blast
    show ?thesis
    proof (cases "loopBody st2 p3")
      case (Break reason s')
      with nl have "reason \<noteq> PaginationLoop" by auto
      with Break c1 c2 show ?thesis by simp
    next
      case (Continue st3)
      with c1 c2 show ?thesis by simp
    qed
  qed
qed

text \<open>The set of seen keys grows by the keys of every page the loop has read.\<close>

lemma loopBody_seen_set:
  "set (seenEstablishments (stateOf (loopBody st obs)))
     = set (seenEstablishments st) \<union> pageKey ` set (scrapePageResults (gridRows obs))"
proof (cases "duplicatePage (seenEstablishments st) (scrapePageResults (gridRows obs))")
  case True
  then have "pageKey ` set (scrapePageResults (gridRows obs)) \<subseteq> set (seenEstablishments st)"
    by (auto simp: duplicatePage_def list_all_iff)
  with loopBody_seen [OF True] show ?thesis by auto
next
  case False
  then show ?thesis
    by (simp add: loopBody_other advance_state trackDuplicates_seen)
qed

lemma crawlLoop_append:
  "crawlLoop st (xs @ ys)
     = (case crawlLoop st xs of Running st' \<Rightarrow> crawlLoop st' ys
        | Stopped reason s \<Rightarrow> Stopped reason s)"
  by (induction xs arbitrary: st) (simp_all split: iteration.splits)

lemma crawlLoop_running:
  "crawlLoop st pages = Running st' \<Longrightarrow>
   allResults st' = allResults st @ concat (map (\<lambda>p. scrapePageResults (gridRows p)) pages)
   \<and> set (seenEstablishments st')
       = set (seenEstablishments st)
         \<union> pageKey ` set (concat (map (\<lambda>p. scrapePageResults (gridRows p)) pages))"
proof (induction pages arbitrary: st)
  case Nil
  then show ?case by simp
next
  case (Cons p ps)
  from Cons.prems obtain st1 where b: "loopBody st p = Continue st1"
    by (cases "loopBody st p") simp_all
  with Cons.prems have "crawlLoop st1 ps = Running st'" by simp
  note ih = Cons.IH [OF this]
  from loopBody_results [of st p] b
  have r: "allResults st1 = allResults st @ scrapePageResults (gridRows p)" by simp
  from loopBody_seen_set [of st p] b
  have s: "set (seenEstablishments st1)
      = set (seenEstablishments st) \<union> pageKey ` set (scrapePageResults (gridRows p))" by simp
  from ih r s show ?case by (simp add: image_Un Un_assoc)
qed

lemma crawl_from_start:
  assumes "crawlLoop initialState pages = Running st"
  shows "allResults st = concat (map (\<lambda>p. scrapePageResults (gridRows p)) pages)"
    and "set (seenEstablishments st) = pageKey ` set (allResults st)"
  using crawlLoop_running [OF assms] by (simp_all add: initialState_def)

lemma duplicate_of_earlier_pages:
  assumes "crawlLoop initialState pages = Running st"
  shows "duplicatePage (seenEstablishments st) rs
     = (rs \<noteq> [] \<and> pageKey ` set rs
          \<subseteq> pageKey ` set (concat (map (\<lambda>p. scrapePageResults (gridRows p)) pages)))"
proof -
  have "set (seenEstablishments st)
      = pageKey ` set (concat (map (\<lambda>p. scrapePageResults (gridRows p)) pages))"
    using crawl_from_start [OF assms] by simp
  then show ?thesis
    by (simp add: duplicatePage_def list_all_iff image_subset_iff)
qed

lemma loop_after_earlier_pages:
  assumes run: "crawlLoop initialState (pre @ [p1, p2]) = Running st2"
    and d1: "scrapePageResults (gridRows p1) \<noteq> []
      \<and> pageKey ` set (scrapePageResults (gridRows p1))
          \<subseteq> pageKey ` set (concat (map (\<lambda>p. scrapePageResults (gridRows p)) pre))"
    and d2: "scrapePageResults (gridRows p2) \<noteq> []
      \<and> pageKey ` set (scrapePageResults (gridRows p2))
          \<subseteq> pageKey ` set (concat (map (\<lambda>p. scrapePageResults (gridRows p)) pre))"
    and d3: "scrapePageResults (gridRows p3) \<noteq> []
      \<and> pageKey ` set (scrapePageResults (gridRows p3))
          \<subseteq> pageKey ` set (concat (map (\<lambda>p. scrapePageResults (gridRows p)) pre))"
  shows "\<exists>s. crawlLoop initialState (pre @ p1 # p2 # p3 # rest) = Stopped PaginationLoop s
    \<and> allResults s = concat (map (\<lambda>p. scrapePageResults (gridRows p)) (pre @ [p1, p2, p3]))"
proof -
  from run obtain st where pre: "crawlLoop initialState pre = Running st"
    and two: "crawlLoop st [p1, p2] = Running st2"
    by (cases "crawlLoop initialState pre") (simp_all add: crawlLoop_append)
  note dup = duplicate_of_earlier_pages [OF pre]
  have e1: "duplicatePage (seenEstablishments st) (scrapePageResults (gridRows p1))"
    unfolding dup by (rule d1)
  have e2: "duplicatePage (seenEstablishments st) (scrapePageResults (gridRows p2))"
    unfolding dup by (rule d2)
  have e3: "duplicatePage (seenEstablishments st) (scrapePageResults (gridRows p3))"
    unfolding dup by (rule d3)
  from three_duplicate_pages_from [OF two e1 e2 e3, of rest]
  obtain s where s: "crawlLoop st (p1 # p2 # p3 # rest) = Stopped PaginationLoop s"
    and r: "allResults s = allResults st @ scrapePageResults (gridRows p1)
        @ scrapePageResults (gridRows p2) @ scrapePageResults (gridRows p3)"
    by blast
  have "crawlLoop initialState (pre @ p1 # p2 # p3 # rest) = Stopped PaginationLoop s"
    by (simp only: crawlLoop_append pre outcome.case s)
  moreover have "allResults s
      = concat (map (\<lambda>p. scrapePageResults (gridRows p)) (pre @ [p1, p2, p3]))"
    by (simp add: r crawl_from_start(1) [OF pre])
  ultimately show ?thesis by blast
qed

text \<open>
  Claim C5. A page with at least one record, all of whose records have keys
  \<open>name|address|inspectionDate\<close> seen before the page, adds 1 to the counter of
  consecutive duplicate pages, and the loop stops with the pagination-loop failure exactly
  when the counter so reaches 3. Any other page, in particular a page with a record whose
  key is new, sets the counter to 0 and does not stop the loop for that reason. So three
  duplicate pages in a row end the crawl, with the pagination-loop failure when the crawl
  got as far as the third; and after a page that reset the counter, two duplicate pages
  followed by a page with a new record do not. The keys seen before a page are the keys
  of all records of the pages crawled before it: every pass of the loop adds the keys of
  its page to the set, so in a crawl from the start a page is a duplicate page exactly
  when it has a record and each of its keys is the key of a record of an earlier page,
  and three such pages in a row stop the crawl with the pagination-loop failure.
\<close>

theorem pagination_loop_detected:
  "(\<forall>st obs. duplicatePage (seenEstablishments st) (scrapePageResults (gridRows obs)) \<longrightarrow>
      consecutiveDuplicatePages (stateOf (loopBody st obs)) = consecutiveDuplicatePages st + 1)
   \<and> (\<forall>st obs. (\<exists>s. loopBody st obs = Break PaginationLoop s)
        = (duplicatePage (seenEstablishments st) (scrapePageResults (gridRows obs))
           \<and> consecutiveDuplicatePages st + 1 \<ge> 3))
   \<and> (\<forall>st obs. \<not> duplicatePage (seenEstablishments st) (scrapePageResults (gridRows obs)) \<longrightarrow>
        consecutiveDuplicatePages (stateOf (loopBody st obs)) = 0)
   \<and> (\<forall>st obs. (\<exists>r\<in>set (scrapePageResults (gridRows obs)).
                    pageKey r \<notin> set (seenEstablishments st)) \<longrightarrow>
        consecutiveDuplicatePages (stateOf (loopBody st obs)) = 0
        \<and> (\<forall>s. loopBody st obs \<noteq> Break PaginationLoop s))
   \<and> (\<forall>st p1 p2 p3 rest st2.
        crawlLoop st [p1, p2] = Running st2
        \<and> duplicatePage (seenEstablishments st) (scrapePageResults (gridRows p1))
        \<and> duplicatePage (seenEstablishments st) (scrapePageResults (gridRows p2))
        \<and> duplicatePage (seenEstablishments st) (scrapePageResults (gridRows p3)) \<longrightarrow>
        (\<exists>s. crawlLoop st (p1 # p2 # p3 # rest) = Stopped PaginationLoop s
          \<and> allResults s = allResults st @ scrapePageResults (gridRows p1)
              @ scrapePageResults (gridRows p2) @ scrapePageResults (gridRows p3)))
   \<and> (\<forall>st p1 p2 p3 rest.
        duplicatePage (seenEstablishments st) (scrapePageResults (gridRows p1))
        \<and> duplicatePage (seenEstablishments st) (scrapePageResults (gridRows p2))
        \<and> duplicatePage (seenEstablishments st) (scrapePageResults (gridRows p3)) \<longrightarrow>
        (\<exists>reason s. crawlLoop st (p1 # p2 # p3 # rest) = Stopped reason s))
   \<and> (\<forall>st p1 p2 p3 s.
        consecutiveDuplicatePages st = 0
        \<and> duplicatePage (seenEstablishments st) (scrapePageResults (gridRows p1))
        \<and> duplicatePage (seenEstablishments st) (scrapePageResults (gridRows p2))
        \<and> (\<exists>r\<in>set (scrapePageResults (gridRows p3)). pageKey r \<notin> set (seenEstablishments st))
        \<longrightarrow> crawlLoop st [p1, p2, p3] \<noteq> Stopped PaginationLoop s)
   \<and> (\<forall>r. pageKey r = name r @ ''|'' @ addr r @ ''|'' @ inspectionDate r)
   \<and> consecutiveDuplicatePages initialState = 0
   \<and> (\<forall>st obs. set (seenEstablishments (stateOf (loopBody st obs)))
        = set (seenEstablishments st) \<union> pageKey ` set (scrapePageResults (gridRows obs)))
   \<and> (\<forall>pages st. crawlLoop initialState pages = Running st \<longrightarrow>
        allResults st = concat (map (\<lambda>p. scrapePageResults (gridRows p)) pages)
        \<and> set (seenEstablishments st) = pageKey ` set (allResults st))
   \<and> (\<forall>pages st rs. crawlLoop initialState pages = Running st \<longrightarrow>
        duplicatePage (seenEstablishments st) rs
        = (rs \<noteq> [] \<and> pageKey ` set rs
             \<subseteq> pageKey ` set (concat (map (\<lambda>p. scrapePageResults (gridRows p)) pages))))
   \<and> (\<forall>pre p1 p2 p3 rest st2.
        crawlLoop initialState (pre @ [p1, p2]) = Running st2
        \<and> (scrapePageResults (gridRows p1) \<noteq> []
           \<and> pageKey ` set (scrapePageResults (gridRows p1))
               \<subseteq> pageKey ` set (concat (map (\<lambda>p. scrapePageResults (gridRows p)) pre)))
        \<and> (scrapePageResults (gridRows p2) \<noteq> []
           \<and> pageKey ` set (scrapePageResults (gridRows p2))
               \<subseteq> pageKey ` set (concat (map (\<lambda>p. scrapePageResults (gridRows p)) pre)))
        \<and> (scrapePageResults (gridRows p3) \<noteq> []
           \<and> pageKey ` set (scrapePageResults (gridRows p3))
               \<subseteq> pageKey ` set (concat (map (\<lambda>p. scrapePageResults (gridRows p)) pre)))
        \<longrightarrow>
        (\<exists>s. crawlLoop initialState (pre @ p1 # p2 # p3 # rest) = Stopped PaginationLoop s
          \<and> allResults s
              = concat (map (\<lambda>p. scrapePageResults (gridRows p)) (pre @ [p1, p2, p3]))))"
proof (intro conjI allI impI)
  fix st :: crawlState and obs :: pageObs
  assume "duplicatePage (seenEstablishments st) (scrapePageResults (gridRows obs))"
  then show "consecutiveDuplicatePages (stateOf (loopBody st obs)) = consecutiveDuplicatePages st + 1"
    by (simp add: loopBody_counter)
next
  fix st :: crawlState and obs :: pageObs
  show "(\<exists>s. loopBody st obs = Break PaginationLoop s)
        = (duplicatePage (seenEstablishments st) (scrapePageResults (gridRows obs))
           \<and> consecutiveDuplicatePages st + 1 \<ge> 3)"
    by (rule loopBody_loop_iff)
next
  fix st :: crawlState and obs :: pageObs
  assume "\<not> duplicatePage (seenEstablishments st) (scrapePageResults (gridRows obs))"
  then show "consecutiveDuplicatePages (stateOf (loopBody st obs)) = 0"
    by (simp add: loopBody_counter)
next
  fix st :: crawlState and obs :: pageObs
  assume "\<exists>r\<in>set (scrapePageResults (gridRows obs)). pageKey r \<notin> set (seenEstablishments st)"
  then have n: "\<not> duplicatePage (seenEstablishments st) (scrapePageResults (gridRows obs))"
    by (rule new_record_no_duplicatePage)
  then show "consecutiveDuplicatePages (stateOf (loopBody st obs)) = 0"
    by (simp add: loopBody_counter)
  fix s
  from n loopBody_loop_iff [of st obs] show "loopBody st obs \<noteq> Break PaginationLoop s"
    by blast
next
  fix st :: crawlState and p1 p2 p3 :: pageObs and rest st2
  assume "crawlLoop st [p1, p2] = Running st2
        \<and> duplicatePage (seenEstablishments st) (scrapePageResults (gridRows p1))
        \<and> duplicatePage (seenEstablishments st) (scrapePageResults (gridRows p2))
        \<and> duplicatePage (seenEstablishments st) (scrapePageResults (gridRows p3))"
  then show "\<exists>s. crawlLoop st (p1 # p2 # p3 # rest) = Stopped PaginationLoop s
          \<and> allResults s = allResults st @ scrapePageResults (gridRows p1)
              @ scrapePageResults (gridRows p2) @ scrapePageResults (gridRows p3)"
    using three_duplicate_pages_from by blast
next
  fix st :: crawlState and p1 p2 p3 :: pageObs and rest :: "pageObs list"
  assume "duplicatePage (seenEstablishments st) (scrapePageResults (gridRows p1))
        \<and> duplicatePage (seenEstablishments st) (scrapePageResults (gridRows p2))
        \<and> duplicatePage (seenEstablishments st) (scrapePageResults (gridRows p3))"
  then show "\<exists>reason s. crawlLoop st (p1 # p2 # p3 # rest) = Stopped reason s"
    using three_duplicate_pages_stop by blast
next
  fix st :: crawlState and p1 p2 p3 :: pageObs and s
  assume "consecutiveDuplicatePages st = 0
        \<and> duplicatePage (seenEstablishments st) (scrapePageResults (gridRows p1))
        \<and> duplicatePage (seenEstablishments st) (scrapePageResults (gridRows p2))
        \<and> (\<exists>r\<in>set (scrapePageResults (gridRows p3)). pageKey r \<notin> set (seenEstablishments st))"
  then show "crawlLoop st [p1, p2, p3] \<noteq> Stopped PaginationLoop s"
    using two_duplicate_pages_then_new by blast
next
  fix r show "pageKey r = name r @ ''|'' @ addr r @ ''|'' @ inspectionDate r"
    by (rule pageKey_def)
next
  show "consecutiveDuplicatePages initialState = 0" by (simp add: initialState_def)
next
  fix st :: crawlState and obs :: pageObs
  show "set (seenEstablishments (stateOf (loopBody st obs)))
        = set (seenEstablishments st) \<union> pageKey ` set (scrapePageResults (gridRows obs))"
    by (rule loopBody_seen_set)
next
  fix pages st
  assume r: "crawlLoop initialState pages = Running st"
  show "allResults st = concat (map (\<lambda>p. scrapePageResults (gridRows p)) pages)"
    by (rule crawl_from_start(1) [OF r])
  show "set (seenEstablishments st) = pageKey ` set (allResults st)"
    by (rule crawl_from_start(2) [OF r])
next
  fix pages st and rs :: "inspectionRecord list"
  assume "crawlLoop initialState pages = Running st"
  then show "duplicatePage (seenEstablishments st) rs
        = (rs \<noteq> [] \<and> pageKey ` set rs
             \<subseteq> pageKey ` set (concat (map (\<lambda>p. scrapePageResults (gridRows p)) pages)))"
    by (rule duplicate_of_earlier_pages)
next
  fix pre :: "pageObs list" and p1 p2 p3 :: pageObs and rest st2
  assume a: "crawlLoop initialState (pre @ [p1, p2]) = Running st2
        \<and> (scrapePageResults (gridRows p1) \<noteq> []
           \<and> pageKey ` set (scrapePageResults (gridRows p1))
               \<subseteq> pageKey ` set (concat (map (\<lambda>p. scrapePageResults (gridRows p)) pre)))
        \<and> (scrapePageResults (gridRows p2) \<noteq> []
           \<and> pageKey ` set (scrapePageResults (gridRows p2))
               \<subseteq> pageKey ` set (concat (map (\<lambda>p. scrapePageResults (gridRows p)) pre)))
        \<and> (scrapePageResults (gridRows p3) \<noteq> []
           \<and> pageKey ` set (scrapePageResults (gridRows p3))
               \<subseteq> pageKey ` set (concat (map (\<lambda>p. scrapePageResults (gridRows p)) pre)))"
  show "\<exists>s. crawlLoop initialState (pre @ p1 # p2 # p3 # rest) = Stopped PaginationLoop s
          \<and> allResults s
              = concat (map (\<lambda>p. scrapePageResults (gridRows p)) (pre @ [p1, p2, p3]))"
    by (rule loop_after_earlier_pages [OF a [THEN conjunct1] a [THEN conjunct2, THEN conjunct1]
          a [THEN conjunct2, THEN conjunct2, THEN conjunct1]
          a [THEN conjunct2, THEN conjunct2, THEN conjunct2]])
qed


lemma duplicatePage_keys:
  "duplicatePage seen rs = (map pageKey rs \<noteq> [] \<and> set (map pageKey rs) \<subseteq> set seen)"
  by (auto simp: duplicatePage_def list_all_iff)

lemma sample_routine: "includes_str (toLowerCase ''Routine'') ''routine''"
  by code_simp

lemma repeatedPage_keys:
  "map pageKey (scrapePageResults (gridRows (repeatedPage k))) = [''Diner A|123 Main St|01/02/2025'']"
  by (simp add: repeatedPage_def linkPage_def scrapePageResults_Cons scrapeRow_def sampleRow_def
      sample_routine Let_def pageKey_def scrapePageResults_def)

lemma freshPage_keys:
  "map pageKey (scrapePageResults (gridRows (freshPage k)))
     = [''Diner A|123 Main St|01/02/2025'', ''Cafe B|123 Main St|01/05/2025'']"
  by (simp add: freshPage_def linkPage_def scrapePageResults_Cons scrapeRow_def sampleRow_def
      sample_routine Let_def pageKey_def scrapePageResults_def)

lemma repeatedPage_first:
  "loopBody initialState (repeatedPage 1)
     = Continue \<lparr>allResults = scrapePageResults (gridRows (repeatedPage 1)), pageNum = 2,
         seenEstablishments = [''Diner A|123 Main St|01/02/2025''],
         consecutiveDuplicatePages = 0\<rparr>"
proof -
  have "\<not> duplicatePage (seenEstablishments initialState)
      (scrapePageResults (gridRows (repeatedPage 1)))"
    by (simp add: duplicatePage_keys repeatedPage_keys initialState_def)
  then show ?thesis
    by (simp add: loopBody_other)
      (simp add: advance_def repeatedPage_def linkPage_def linkPager_def initialState_def
        scrapePageResults_Cons scrapeRow_def sampleRow_def sample_routine Let_def pageKey_def
        scrapePageResults_def)
qed

lemma repeatedPage_again:
  assumes "seenEstablishments st = [''Diner A|123 Main St|01/02/2025'']"
    and "pageNum st = int k" and "0 < k" and "k < 1000" and "consecutiveDuplicatePages st < 2"
  shows "loopBody st (repeatedPage k)
     = Continue (st\<lparr>allResults := allResults st @ scrapePageResults (gridRows (repeatedPage k)),
                    consecutiveDuplicatePages := consecutiveDuplicatePages st + 1,
                    pageNum := int k + 1\<rparr>)"
proof -
  have "duplicatePage (seenEstablishments st) (scrapePageResults (gridRows (repeatedPage k)))"
    by (simp add: duplicatePage_keys repeatedPage_keys assms(1))
  then show ?thesis
    using assms(2-5)
    by (simp add: loopBody_duplicate Let_def)
      (simp add: advance_def repeatedPage_def linkPage_def linkPager_def)
qed

lemma otherPage_keys:
  "map pageKey (scrapePageResults (gridRows (otherPage k))) = [''Cafe B|123 Main St|01/05/2025'']"
  by (simp add: otherPage_def linkPage_def scrapePageResults_Cons scrapeRow_def sampleRow_def
      sample_routine Let_def pageKey_def scrapePageResults_def)

lemma linkPage_continues:
  assumes p: "pageNum st = int k" and k: "0 < k" "k < 1000"
    and c: "duplicatePage (seenEstablishments st) (scrapePageResults rows) \<Longrightarrow>
      consecutiveDuplicatePages st < 2"
  shows "\<exists>st'. loopBody st (linkPage rows k) = Continue st' \<and> pageNum st' = int k + 1"
proof (cases "duplicatePage (seenEstablishments st) (scrapePageResults rows)")
  case True
  then have d: "duplicatePage (seenEstablishments st)
      (scrapePageResults (gridRows (linkPage rows k)))"
    by (simp add: linkPage_def)
  from c [OF True] p k show ?thesis
    by (simp add: loopBody_duplicate [OF d] Let_def)
      (simp add: advance_def linkPage_def linkPager_def)
next
  case False
  then have d: "\<not> duplicatePage (seenEstablishments st)
      (scrapePageResults (gridRows (linkPage rows k)))"
    by (simp add: linkPage_def)
  from p k show ?thesis
    by (simp add: loopBody_other [OF d])
      (simp add: advance_def linkPage_def linkPager_def)
qed

lemma sample_crawl_running:
  "\<exists>st2 st4. crawlLoop initialState [repeatedPage 1, otherPage 2] = Running st2
     \<and> crawlLoop initialState ([repeatedPage 1, otherPage 2] @ [otherPage 3, otherPage 4])
         = Running st4"
proof -
  let ?kA = "''Diner A|123 Main St|01/02/2025''" and ?kB = "''Cafe B|123 Main St|01/05/2025''"
  let ?st1 = "\<lparr>allResults = scrapePageResults (gridRows (repeatedPage 1)), pageNum = 2,
         seenEstablishments = [?kA], consecutiveDuplicatePages = 0\<rparr>"
  note b1 = repeatedPage_first
  have o: "\<And>k. otherPage k = linkPage [Row (sampleRow ''Cafe B'' ''01/05/2025'' ''Routine'')] k"
    by (simp add: otherPage_def)
  have keys: "\<And>k. map pageKey (scrapePageResults (gridRows (otherPage k))) = [?kB]"
    by (rule otherPage_keys)
  have rows: "\<And>k. gridRows (otherPage k) = [Row (sampleRow ''Cafe B'' ''01/05/2025'' ''Routine'')]"
    by (simp add: otherPage_def linkPage_def)
  have n1: "\<not> duplicatePage (seenEstablishments ?st1)
      (scrapePageResults [Row (sampleRow ''Cafe B'' ''01/05/2025'' ''Routine'')])"
    using keys [of 2] by (simp add: duplicatePage_keys rows)
  have "\<exists>st'. loopBody ?st1 (linkPage [Row (sampleRow ''Cafe B'' ''01/05/2025'' ''Routine'')] 2)
      = Continue st' \<and> pageNum st' = int 2 + 1"
    by (rule linkPage_continues) (simp_all add: n1)
  then obtain st2 where b2: "loopBody ?st1 (otherPage 2) = Continue st2"
    and p2: "pageNum st2 = 3" unfolding o by auto
  from loopBody_counter [of ?st1 "otherPage 2"] n1 b2
  have c2: "consecutiveDuplicatePages st2 = 0" by (simp add: rows)
  from loopBody_seen_set [of ?st1 "otherPage 2"] b2 keys [of 2]
  have s2: "set (seenEstablishments st2) = {?kA, ?kB}"
    by (simp add: rows del: set_map flip: set_map)
  have d2: "duplicatePage (seenEstablishments st2)
      (scrapePageResults [Row (sampleRow ''Cafe B'' ''01/05/2025'' ''Routine'')])"
    using keys [of 3] by (simp add: duplicatePage_keys rows s2)
  have "\<exists>st'. loopBody st2 (linkPage [Row (sampleRow ''Cafe B'' ''01/05/2025'' ''Routine'')] 3)
      = Continue st' \<and> pageNum st' = int 3 + 1"
    by (rule linkPage_continues) (simp_all add: p2 c2)
  then obtain st3 where b3: "loopBody st2 (otherPage 3) = Continue st3"
    and p3: "pageNum st3 = 4" unfolding o by auto
  from loopBody_counter [of st2 "otherPage 3"] d2 b3 c2
  have c3: "consecutiveDuplicatePages st3 = 1" by (simp add: rows)
  from loopBody_seen [of st2 "otherPage 3"] d2 b3
  have s3: "seenEstablishments st3 = seenEstablishments st2" by (simp add: rows)
  have "\<exists>st'. loopBody st3 (linkPage [Row (sampleRow ''Cafe B'' ''01/05/2025'' ''Routine'')] 4)
      = Continue st' \<and> pageNum st' = int 4 + 1"
    by (rule linkPage_continues) (simp_all add: p3 c3)
  then obtain st4 where b4: "loopBody st3 (otherPage 4) = Continue st4"
    unfolding o by auto
  have r2: "crawlLoop initialState [repeatedPage 1, otherPage 2] = Running st2"
    by (simp only: crawlLoop.simps b1 b2 iteration.case)
  have "crawlLoop initialState [repeatedPage 1, otherPage 2, otherPage 3, otherPage 4]
      = Running st4"
    by (simp only: crawlLoop.simps b1 b2 b3 b4 iteration.case)
  then have r4: "crawlLoop initialState ([repeatedPage 1, otherPage 2]
      @ [otherPage 3, otherPage 4]) = Running st4"
    by (simp only: append.simps)
  from r2 r4 show ?thesis by blast
qed

theorem pagination_loop_detected_witness:
  "consecutiveDuplicatePages (stateOf (loopBody initialState (repeatedPage 1))) = 0
   \<and> duplicatePage (seenEstablishments (stateOf (loopBody initialState (repeatedPage 1))))
        (scrapePageResults (gridRows (repeatedPage 2)))
   \<and> duplicatePage (seenEstablishments (stateOf (loopBody initialState (repeatedPage 1))))
        (scrapePageResults (gridRows (repeatedPage 3)))
   \<and> duplicatePage (seenEstablishments (stateOf (loopBody initialState (repeatedPage 1))))
        (scrapePageResults (gridRows (repeatedPage 4)))
   \<and> (\<exists>st2. crawlLoop (stateOf (loopBody initialState (repeatedPage 1)))
                [repeatedPage 2, repeatedPage 3] = Running st2)
   \<and> (\<exists>s. crawlLoop initialState
              [repeatedPage 1, repeatedPage 2, repeatedPage 3, repeatedPage 4, repeatedPage 5]
            = Stopped PaginationLoop s
          \<and> length (allResults s) = 4)
   \<and> (\<exists>r\<in>set (scrapePageResults (gridRows (freshPage 4))).
          pageKey r \<notin> set (seenEstablishments (stateOf (loopBody initialState (repeatedPage 1)))))
   \<and> (\<forall>s. crawlLoop initialState [repeatedPage 1, repeatedPage 2, repeatedPage 3, freshPage 4]
          \<noteq> Stopped PaginationLoop s)
   \<and> (\<exists>st. crawlLoop initialState [repeatedPage 1, otherPage 2] = Running st
          \<and> set (seenEstablishments st)
              = {''Diner A|123 Main St|01/02/2025'', ''Cafe B|123 Main St|01/05/2025''}
          \<and> duplicatePage (seenEstablishments st) (scrapePageResults (gridRows (otherPage 3))))
   \<and> (\<exists>st. crawlLoop initialState ([repeatedPage 1, otherPage 2] @ [otherPage 3, otherPage 4])
          = Running st)
   \<and> scrapePageResults (gridRows (otherPage 3)) \<noteq> []
   \<and> pageKey ` set (scrapePageResults (gridRows (otherPage 3)))
       \<subseteq> pageKey ` set (concat (map (\<lambda>p. scrapePageResults (gridRows p))
             [repeatedPage 1, otherPage 2]))
   \<and> (\<exists>s. crawlLoop initialState
              ([repeatedPage 1, otherPage 2]
               @ otherPage 3 # otherPage 4 # otherPage 5 # [otherPage 6])
            = Stopped PaginationLoop s
          \<and> length (allResults s) = 5)"
proof -
  note T = pagination_loop_detected
  let ?st1 = "stateOf (loopBody initialState (repeatedPage 1))"
  have st1: "?st1 = \<lparr>allResults = scrapePageResults (gridRows (repeatedPage 1)), pageNum = 2,
         seenEstablishments = [''Diner A|123 Main St|01/02/2025''],
         consecutiveDuplicatePages = 0\<rparr>"
    by (simp only: repeatedPage_first stateOf.simps)
  have go: "\<And>rest. crawlLoop initialState (repeatedPage 1 # rest) = crawlLoop ?st1 rest"
    by (simp only: crawlLoop.simps repeatedPage_first iteration.case stateOf.simps)
  have z: "consecutiveDuplicatePages ?st1 = 0" unfolding st1 by simp
  have d: "\<And>k. duplicatePage (seenEstablishments ?st1)
      (scrapePageResults (gridRows (repeatedPage k)))"
    unfolding st1 by (simp add: duplicatePage_keys repeatedPage_keys)
  have b2: "loopBody ?st1 (repeatedPage 2)
      = Continue (?st1\<lparr>allResults := allResults ?st1 @ scrapePageResults (gridRows (repeatedPage 2)),
                    consecutiveDuplicatePages := consecutiveDuplicatePages ?st1 + 1,
                    pageNum := int 2 + 1\<rparr>)"
    unfolding st1 by (rule repeatedPage_again) simp_all
  have b3: "\<exists>st3. loopBody (?st1\<lparr>allResults := allResults ?st1 @ scrapePageResults (gridRows (repeatedPage 2)),
                    consecutiveDuplicatePages := consecutiveDuplicatePages ?st1 + 1,
                    pageNum := int 2 + 1\<rparr>) (repeatedPage 3) = Continue st3"
    unfolding st1 by (rule exI, rule repeatedPage_again) simp_all
  then obtain st3 where run: "crawlLoop ?st1 [repeatedPage 2, repeatedPage 3] = Running st3"
    using b2 by auto
  from T [THEN conjunct2, THEN conjunct2, THEN conjunct2, THEN conjunct2, THEN conjunct1,
      rule_format, OF conjI [OF run conjI [OF d [of 2] conjI [OF d [of 3] d [of 4]]]], of "[repeatedPage 5]"]
  obtain s where s: "crawlLoop ?st1 [repeatedPage 2, repeatedPage 3, repeatedPage 4, repeatedPage 5]
      = Stopped PaginationLoop s"
    and rs: "allResults s = allResults ?st1 @ scrapePageResults (gridRows (repeatedPage 2))
        @ scrapePageResults (gridRows (repeatedPage 3)) @ scrapePageResults (gridRows (repeatedPage 4))"
    by blast
  have len: "\<And>k. length (scrapePageResults (gridRows (repeatedPage k))) = 1"
    using repeatedPage_keys by (metis length_map length_Cons list.size(3) One_nat_def)
  have l4: "length (allResults s) = 4"
    unfolding rs st1 by (simp add: len)
  have stop: "\<exists>s. crawlLoop initialState
      [repeatedPage 1, repeatedPage 2, repeatedPage 3, repeatedPage 4, repeatedPage 5]
      = Stopped PaginationLoop s \<and> length (allResults s) = 4"
    unfolding go using s l4 by blast
  have n: "\<exists>r\<in>set (scrapePageResults (gridRows (freshPage 4))).
      pageKey r \<notin> set (seenEstablishments ?st1)"
  proof -
    have "''Cafe B|123 Main St|01/05/2025''
        \<in> set (map pageKey (scrapePageResults (gridRows (freshPage 4))))"
      by (simp add: freshPage_keys)
    then obtain r where r: "r \<in> set (scrapePageResults (gridRows (freshPage 4)))"
      and k: "pageKey r = ''Cafe B|123 Main St|01/05/2025''" by auto
    from k have "pageKey r \<notin> set [''Diner A|123 Main St|01/02/2025'']" by simp
    with r show ?thesis unfolding st1 by (simp only: crawlState.simps) blast
  qed
  have free: "\<forall>s. crawlLoop initialState
      [repeatedPage 1, repeatedPage 2, repeatedPage 3, freshPage 4] \<noteq> Stopped PaginationLoop s"
  proof
    fix s
    from T [THEN conjunct2, THEN conjunct2, THEN conjunct2, THEN conjunct2, THEN conjunct2,
        THEN conjunct2, THEN conjunct1, rule_format,
        OF conjI [OF z conjI [OF d [of 2] conjI [OF d [of 3] n]]], of s]
    show "crawlLoop initialState [repeatedPage 1, repeatedPage 2, repeatedPage 3, freshPage 4]
        \<noteq> Stopped PaginationLoop s"
      unfolding go .
  qed
  from run have run': "\<exists>st2. crawlLoop ?st1 [repeatedPage 2, repeatedPage 3] = Running st2"
    by blast
  let ?kA = "''Diner A|123 Main St|01/02/2025''" and ?kB = "''Cafe B|123 Main St|01/05/2025''"
  let ?pre = "[repeatedPage 1, otherPage 2]"
  note N = T [THEN conjunct2, THEN conjunct2, THEN conjunct2, THEN conjunct2, THEN conjunct2,
      THEN conjunct2, THEN conjunct2, THEN conjunct2, THEN conjunct2, THEN conjunct2]
  from sample_crawl_running obtain sa sb
    where ra: "crawlLoop initialState ?pre = Running sa"
      and rb: "crawlLoop initialState (?pre @ [otherPage 3, otherPage 4]) = Running sb"
    by blast
  have iB: "\<And>k. pageKey ` set (scrapePageResults (gridRows (otherPage k))) = {?kB}"
    by (simp only: set_map [symmetric] otherPage_keys) simp
  have iA: "pageKey ` set (scrapePageResults (gridRows (repeatedPage 1))) = {?kA}"
    by (simp only: set_map [symmetric] repeatedPage_keys) simp
  have ne: "scrapePageResults (gridRows (otherPage k)) \<noteq> []" for k
    using otherPage_keys [of k] by auto
  have cc: "concat (map (\<lambda>p. scrapePageResults (gridRows p)) ?pre)
      = scrapePageResults (gridRows (repeatedPage 1)) @ scrapePageResults (gridRows (otherPage 2))"
    by (simp only: list.map concat.simps append_Nil2)
  have sub: "\<And>k. pageKey ` set (scrapePageResults (gridRows (otherPage k)))
      \<subseteq> pageKey ` set (concat (map (\<lambda>p. scrapePageResults (gridRows p)) ?pre))"
    by (simp only: cc set_append image_Un iA iB) simp
  have dk: "\<And>k. scrapePageResults (gridRows (otherPage k)) \<noteq> []
      \<and> pageKey ` set (scrapePageResults (gridRows (otherPage k)))
          \<subseteq> pageKey ` set (concat (map (\<lambda>p. scrapePageResults (gridRows p)) ?pre))"
    by (intro conjI ne sub)
  note n2 = N [THEN conjunct1, rule_format, OF ra]
  have seen2: "set (seenEstablishments sa) = {?kA, ?kB}"
    by (simp only: n2 cc set_append image_Un iA iB) auto
  have dup3: "duplicatePage (seenEstablishments sa) (scrapePageResults (gridRows (otherPage 3)))"
    by (simp only: N [THEN conjunct2, THEN conjunct1, rule_format, OF ra]) (rule dk)
  have acc: "\<exists>st. crawlLoop initialState ?pre = Running st
      \<and> set (seenEstablishments st) = {?kA, ?kB}
      \<and> duplicatePage (seenEstablishments st) (scrapePageResults (gridRows (otherPage 3)))"
    using ra seen2 dup3 by blast
  have rb': "\<exists>st. crawlLoop initialState (?pre @ [otherPage 3, otherPage 4]) = Running st"
    using rb by blast
  from N [THEN conjunct2, THEN conjunct2, rule_format,
      OF conjI [OF rb conjI [OF dk [of 3] conjI [OF dk [of 4] dk [of 5]]]], of "[otherPage 6]"]
  obtain s5 where s5: "crawlLoop initialState
        (?pre @ otherPage 3 # otherPage 4 # otherPage 5 # [otherPage 6])
      = Stopped PaginationLoop s5"
    and r5: "allResults s5 = concat (map (\<lambda>p. scrapePageResults (gridRows p))
        (?pre @ [otherPage 3, otherPage 4, otherPage 5]))"
    by blast
  have lenB: "length (scrapePageResults (gridRows (otherPage k))) = 1" for k
    using otherPage_keys [of k] by (metis length_map length_Cons list.size(3) One_nat_def)
  have l5: "length (allResults s5) = 5"
    unfolding r5 by (simp add: len lenB)
  have stop5: "\<exists>s. crawlLoop initialState
        (?pre @ otherPage 3 # otherPage 4 # otherPage 5 # [otherPage 6])
      = Stopped PaginationLoop s \<and> length (allResults s) = 5"
    using s5 l5 by blast
  show ?thesis
    by (intro conjI z d run' stop n free acc rb' ne sub stop5)
qed


text \<open>A page without rows leaves everything but the page counter as it is.\<close>

lemma empty_blockPage_step:
  assumes "0 < k" and "k \<le> 1000"
  shows "loopBody (initialState\<lparr>pageNum := int k\<rparr>) (blockPage [] k)
     = Continue (initialState\<lparr>pageNum := int (Suc k)\<rparr>)"
proof -
  have "int k mod 10 \<noteq> 0 \<Longrightarrow> \<not> int k + 1 > 1000"
    using assms by presburger
  then show ?thesis
    using assms
    by (simp add: loopBody_def scrapePageResults_def advance_def blockPage_def blockPager_def
        initialState_def Let_def)
qed

lemma empty_linkPage_step:
  assumes "0 < k" and "k < 1000"
  shows "loopBody (initialState\<lparr>pageNum := int k\<rparr>) (linkPage [] k)
     = Continue (initialState\<lparr>pageNum := int (Suc k)\<rparr>)"
  using assms
  by (simp add: loopBody_def scrapePageResults_def advance_def linkPage_def linkPager_def
      initialState_def Let_def)

lemma empty_blockPages_run:
  "0 < k \<Longrightarrow> k + n \<le> 1001 \<Longrightarrow>
   crawlLoop (initialState\<lparr>pageNum := int k\<rparr>) (map (blockPage []) [k..<k + n] @ rest)
     = crawlLoop (initialState\<lparr>pageNum := int (k + n)\<rparr>) rest"
proof (induction n arbitrary: k)
  case 0
  then show ?case by simp
next
  case (Suc n)
  have u: "[k..<k + Suc n] = k # [Suc k..<Suc k + n]"
    by (simp add: upt_conv_Cons)
  from Suc.prems have "k \<le> 1000" by simp
  with Suc.prems have s: "loopBody (initialState\<lparr>pageNum := int k\<rparr>) (blockPage [] k)
     = Continue (initialState\<lparr>pageNum := int (Suc k)\<rparr>)"
    by (simp add: empty_blockPage_step)
  from Suc.prems Suc.IH [of "Suc k"] show ?case
    by (simp only: u list.map append_Cons crawlLoop.simps s iteration.case) simp
qed

lemma empty_linkPages_run:
  "0 < k \<Longrightarrow> k + n \<le> 1000 \<Longrightarrow>
   crawlLoop (initialState\<lparr>pageNum := int k\<rparr>) (map (linkPage []) [k..<k + n] @ rest)
     = crawlLoop (initialState\<lparr>pageNum := int (k + n)\<rparr>) rest"
proof (induction n arbitrary: k)
  case 0
  then show ?case by simp
next
  case (Suc n)
  have u: "[k..<k + Suc n] = k # [Suc k..<Suc k + n]"
    by (simp add: upt_conv_Cons)
  from Suc.prems have "k < 1000" by simp
  with Suc.prems have s: "loopBody (initialState\<lparr>pageNum := int k\<rparr>) (linkPage [] k)
     = Continue (initialState\<lparr>pageNum := int (Suc k)\<rparr>)"
    by (simp add: empty_linkPage_step)
  from Suc.prems Suc.IH [of "Suc k"] show ?case
    by (simp only: u list.map append_Cons crawlLoop.simps s iteration.case) simp
qed

text \<open>
  Claim C6, at the input that separates the code from it. The grid has 1001 pages and
  its pager links them in blocks of ten, so page 1000 is left through the ellipsis: the
  page counter becomes 1001 and the loop goes on, scrapes page 1001 and returns its
  record, which the function returns; the limit is met only after the next advance
  through a link. With a link on every page the loop stops when the counter becomes
  1001, and page 1001 is not scraped.
\<close>

theorem ceiling_skipped_after_ellipsis:
  "loopBody (initialState\<lparr>pageNum := 1000\<rparr>) (blockPage [] 1000)
     = Continue (initialState\<lparr>pageNum := 1001\<rparr>)
   \<and> crawlLoop initialState
        (map (blockPage []) [1..<1001]
         @ [blockPage [Row (sampleRow ''Diner A'' ''01/02/2025'' ''Routine'')] 1001])
     = Stopped PageLimit
         \<lparr>allResults = scrapePageResults [Row (sampleRow ''Diner A'' ''01/02/2025'' ''Routine'')],
          pageNum = 1002,
          seenEstablishments = [''Diner A|123 Main St|01/02/2025''],
          consecutiveDuplicatePages = 0\<rparr>
   \<and> returned (scrapeCityWithDateRange False
        (map (blockPage []) [1..<1001]
         @ [blockPage [Row (sampleRow ''Diner A'' ''01/02/2025'' ''Routine'')] 1001]))
     = Some (scrapePageResults [Row (sampleRow ''Diner A'' ''01/02/2025'' ''Routine'')])
   \<and> map name (scrapePageResults [Row (sampleRow ''Diner A'' ''01/02/2025'' ''Routine'')])
     = [''Diner A'']
   \<and> crawlLoop initialState
        (map (linkPage []) [1..<1001]
         @ [linkPage [Row (sampleRow ''Diner A'' ''01/02/2025'' ''Routine'')] 1001])
     = Stopped PageLimit
         \<lparr>allResults = [], pageNum = 1001, seenEstablishments = [],
          consecutiveDuplicatePages = 0\<rparr>"
proof (intro conjI)
  let ?row = "Row (sampleRow ''Diner A'' ''01/02/2025'' ''Routine'')"
  have i: "initialState = initialState\<lparr>pageNum := int 1\<rparr>"
    by (simp add: initialState_def)
  show "loopBody (initialState\<lparr>pageNum := 1000\<rparr>) (blockPage [] 1000)
     = Continue (initialState\<lparr>pageNum := 1001\<rparr>)"
    using empty_blockPage_step [of 1000] by simp
  have keys: "map pageKey (scrapePageResults [?row]) = [''Diner A|123 Main St|01/02/2025'']"
    by (simp add: scrapePageResults_Cons scrapeRow_def sampleRow_def sample_routine Let_def
        pageKey_def scrapePageResults_def)
  show "map name (scrapePageResults [?row]) = [''Diner A'']"
    by (simp add: scrapePageResults_Cons scrapeRow_def sampleRow_def sample_routine Let_def
        scrapePageResults_def)
  have nd: "\<not> duplicatePage [] (scrapePageResults [?row])"
    by (simp add: duplicatePage_keys keys)
  have last_block: "loopBody (initialState\<lparr>pageNum := int 1001\<rparr>) (blockPage [?row] 1001)
     = Break PageLimit
         \<lparr>allResults = scrapePageResults [?row], pageNum = 1002,
          seenEstablishments = [''Diner A|123 Main St|01/02/2025''],
          consecutiveDuplicatePages = 0\<rparr>"
  proof -
    have "\<not> duplicatePage (seenEstablishments (initialState\<lparr>pageNum := int 1001\<rparr>))
        (scrapePageResults (gridRows (blockPage [?row] 1001)))"
      using nd by (simp add: initialState_def blockPage_def)
    then show ?thesis
      by (simp add: loopBody_other)
        (simp add: advance_def blockPage_def blockPager_def initialState_def
          scrapePageResults_Cons scrapeRow_def sampleRow_def sample_routine Let_def pageKey_def
          scrapePageResults_def)
  qed
  have "crawlLoop (initialState\<lparr>pageNum := int 1\<rparr>)
      (map (blockPage []) [1..<1 + 1000] @ [blockPage [?row] 1001])
      = crawlLoop (initialState\<lparr>pageNum := int (1 + 1000)\<rparr>) [blockPage [?row] 1001]"
    by (rule empty_blockPages_run) simp_all
  then show run_block:
    "crawlLoop initialState (map (blockPage []) [1..<1001] @ [blockPage [?row] 1001])
     = Stopped PageLimit
         \<lparr>allResults = scrapePageResults [?row], pageNum = 1002,
          seenEstablishments = [''Diner A|123 Main St|01/02/2025''],
          consecutiveDuplicatePages = 0\<rparr>"
    using last_block i by simp
  show "returned (scrapeCityWithDateRange False
        (map (blockPage []) [1..<1001] @ [blockPage [?row] 1001]))
     = Some (scrapePageResults [?row])"
    by (simp only: scrapeCityWithDateRange_def if_False run_block returned.simps
        crawlState.simps)
  have last_link: "loopBody (initialState\<lparr>pageNum := int 1000\<rparr>) (linkPage [] 1000)
     = Break PageLimit
         \<lparr>allResults = [], pageNum = 1001, seenEstablishments = [],
          consecutiveDuplicatePages = 0\<rparr>"
    by (simp add: loopBody_def scrapePageResults_def advance_def linkPage_def linkPager_def
        initialState_def Let_def)
  have split: "[1..<1001] = [1..<1 + 999] @ [1000::nat]"
  proof -
    have "[1..<Suc 1000] = [1..<1000] @ [1000::nat]"
      by (rule upt_Suc_append) simp
    moreover have "Suc 1000 = 1001" and "1 + 999 = (1000::nat)" by simp_all
    ultimately show ?thesis by (simp only:)
  qed
  have run: "crawlLoop (initialState\<lparr>pageNum := int 1\<rparr>)
      (map (linkPage []) [1..<1 + 999] @ (linkPage [] 1000 # [linkPage [?row] 1001]))
      = crawlLoop (initialState\<lparr>pageNum := int (1 + 999)\<rparr>)
          (linkPage [] 1000 # [linkPage [?row] 1001])"
    by (rule empty_linkPages_run) simp_all
  have e: "map (linkPage []) [1..<1001] @ [linkPage [?row] 1001]
      = map (linkPage []) [1..<1 + 999] @ (linkPage [] 1000 # [linkPage [?row] 1001])"
    by (simp only: split map_append list.map append_assoc append_Cons append_Nil)
  have k: "int (1 + 999) = int 1000" by simp
  have fin: "crawlLoop (initialState\<lparr>pageNum := int 1000\<rparr>)
      (linkPage [] 1000 # [linkPage [?row] 1001])
      = Stopped PageLimit
         \<lparr>allResults = [], pageNum = 1001, seenEstablishments = [],
          consecutiveDuplicatePages = 0\<rparr>"
    by (simp only: crawlLoop.simps last_link iteration.case)
  show "crawlLoop initialState (map (linkPage []) [1..<1001] @ [linkPage [?row] 1001])
     = Stopped PageLimit
         \<lparr>allResults = [], pageNum = 1001, seenEstablishments = [],
          consecutiveDuplicatePages = 0\<rparr>"
    by (subst i) (simp only: e run k fin)
qed


section \<open>Properties of the merge\<close>

lemma mapSet_map_of: "map_of (mapSet k v m) = (map_of m)(k \<mapsto> v)"
  by (induction m) (auto simp: fun_eq_iff)

lemma mapSet_keys:
  "map fst (mapSet k v m) = (if k \<in> fst ` set m then map fst m else map fst m @ [k])"
proof (induction m)
  case Nil
  then show ?case by simp
next
  case (Cons p m)
  obtain k' v' where p: "p = (k', v')" by (cases p)
  show ?case
  proof (cases "k' = k")
    case True
    then show ?thesis by (simp add: p)
  next
    case False
    with Cons show ?thesis by (simp add: p)
  qed
qed

lemma mapSet_same: "map_of m k = Some v \<Longrightarrow> mapSet k v m = m"
  by (induction m) (auto split: if_splits)

lemma mapSet_new: "map_of m k = None \<Longrightarrow> mapSet k v m = m @ [(k, v)]"
  by (induction m) (auto split: if_splits)

lemma backfill_key: "mergeKey (backfill kept new) = mergeKey kept"
  by (simp add: backfill_def mergeKey_def)

lemma newer_irrefl: "\<not> newer D d d"
  by (simp add: newer_def split: option.splits)

lemma backfill_self: "backfill r r = r"
  by (simp add: backfill_def)

lemma spec_step_self: "spec_step D r r = r"
  by (simp add: spec_step_def Let_def backfill_self newer_irrefl)

text \<open>The loop body, in terms of the step of the specification.\<close>

lemma mapSet_twice: "mapSet k w (mapSet k v m) = mapSet k w m"
  by (induction m) auto

lemma mergeRecord_eq:
  "mergeRecord D m r =
     (case map_of m (mergeKey r) of
        None \<Rightarrow> mapSet (mergeKey r) r m
      | Some existing \<Rightarrow> mapSet (mergeKey r) (spec_step D existing r) m)"
  by (cases "map_of m (mergeKey r)")
    (auto simp: mergeRecord_def spec_step_def backfill_def Let_def mapSet_twice)

lemma mergeRecord_map_of:
  "map_of (mergeRecord D m r) =
     (map_of m)(mergeKey r \<mapsto>
       (case map_of m (mergeKey r) of None \<Rightarrow> r | Some existing \<Rightarrow> spec_step D existing r))"
  by (simp add: mergeRecord_eq mapSet_map_of split: option.splits)

lemma mergeRecord_keys:
  "map fst (mergeRecord D m r)
     = (if mergeKey r \<in> fst ` set m then map fst m else map fst m @ [mergeKey r])"
  by (simp add: mergeRecord_eq mapSet_keys split: option.splits)

lemma firstKeys_snoc:
  "firstKeys (ks @ [k]) = (if k \<in> set ks then firstKeys ks else firstKeys ks @ [k])"
  by (simp add: firstKeys_def)

lemma firstKeys_set: "set (firstKeys ks) = set ks"
  by (simp add: firstKeys_def)

lemma firstKeys_distinct: "distinct (firstKeys ks)"
  by (simp add: firstKeys_def)

lemma collapseGroup_snoc:
  "collapseGroup D (g @ [r])
     = Some (case collapseGroup D g of None \<Rightarrow> r | Some kept \<Rightarrow> spec_step D kept r)"
  by (cases g) simp_all

lemma collapseGroup_None: "(collapseGroup D g = None) = (g = [])"
  by (cases g) simp_all

text \<open>The map after the loop over \<open>data\<close>.\<close>

lemma fold_mergeRecord:
  "map fst (fold (\<lambda>r m. mergeRecord D m r) data []) = firstKeys (map mergeKey data)
   \<and> (\<forall>k. map_of (fold (\<lambda>r m. mergeRecord D m r) data []) k
          = collapseGroup D (filter (\<lambda>r. mergeKey r = k) data))"
proof (induction data rule: rev_induct)
  case Nil
  then show ?case by (simp add: firstKeys_def)
next
  case (snoc x xs)
  let ?m = "fold (\<lambda>r m. mergeRecord D m r) xs []"
  from snoc have keys: "map fst ?m = firstKeys (map mergeKey xs)"
    and vals: "\<And>k. map_of ?m k = collapseGroup D (filter (\<lambda>r. mergeKey r = k) xs)"
    by simp_all
  have "fst ` set ?m = set (map fst ?m)" by simp
  with keys have dom: "fst ` set ?m = mergeKey ` set xs"
    by (simp add: firstKeys_set)
  have k': "map fst (mergeRecord D ?m x) = firstKeys (map mergeKey (xs @ [x]))"
    by (simp add: mergeRecord_keys dom keys firstKeys_snoc)
  have v': "map_of (mergeRecord D ?m x) k
      = collapseGroup D (filter (\<lambda>r. mergeKey r = k) (xs @ [x]))" for k
    by (simp add: mergeRecord_map_of vals collapseGroup_snoc)
  from k' v' show ?case by simp
qed

lemma distinct_map_snd:
  "distinct (map fst m) \<Longrightarrow> map snd m = map (\<lambda>k. the (map_of m k)) (map fst m)"
proof (induction m)
  case Nil
  then show ?case by simp
next
  case (Cons p m)
  obtain k v where p: "p = (k, v)" by (cases p)
  from Cons.prems p have nk: "k \<notin> set (map fst m)" and d: "distinct (map fst m)" by simp_all
  have "map (\<lambda>k'. the (map_of (p # m) k')) (map fst m)
      = map (\<lambda>k'. the (map_of m k')) (map fst m)"
  proof (rule map_cong [OF refl])
    fix k' assume "k' \<in> set (map fst m)"
    with nk have "k' \<noteq> k" by blast
    then show "the (map_of (p # m) k') = the (map_of m k')" by (simp add: p)
  qed
  with Cons.IH [OF d] show ?case by (simp add: p)
qed

lemma map_filter_Some:
  "(\<And>x. x \<in> set xs \<Longrightarrow> f x \<noteq> None) \<Longrightarrow> List.map_filter f xs = map (\<lambda>x. the (f x)) xs"
proof (induction xs)
  case Nil
  then show ?case by simp
next
  case (Cons a xs)
  from Cons.prems [of a] obtain y where y: "f a = Some y" by auto
  from Cons.IH Cons.prems have "List.map_filter f xs = map (\<lambda>x. the (f x)) xs" by simp
  with y show ?case by simp
qed

lemma keep_refines_spec: "keepMostRecentInspections D data = merge_spec D data"
proof -
  let ?m = "fold (\<lambda>r m. mergeRecord D m r) data []"
  let ?g = "\<lambda>k. collapseGroup D (filter (\<lambda>r. mergeKey r = k) data)"
  from fold_mergeRecord [of D data]
  have keys: "map fst ?m = firstKeys (map mergeKey data)" and vals: "\<And>k. map_of ?m k = ?g k"
    by simp_all
  have "distinct (map fst ?m)" by (simp add: keys firstKeys_distinct)
  then have "map snd ?m = map (\<lambda>k. the (map_of ?m k)) (map fst ?m)"
    by (rule distinct_map_snd)
  also have "\<dots> = map (\<lambda>k. the (?g k)) (firstKeys (map mergeKey data))"
    by (simp add: keys vals)
  also have "\<dots> = List.map_filter ?g (firstKeys (map mergeKey data))"
  proof (rule map_filter_Some [symmetric])
    fix k assume "k \<in> set (firstKeys (map mergeKey data))"
    then have "k \<in> mergeKey ` set data" by (simp add: firstKeys_set)
    then have "filter (\<lambda>r. mergeKey r = k) data \<noteq> []"
      by (auto simp: filter_empty_conv)
    then show "?g k \<noteq> None" by (simp add: collapseGroup_None)
  qed
  finally show ?thesis
    by (simp add: keepMostRecentInspections_def merge_spec_def)
qed



lemma spec_step_key:
  "mergeKey kept = k \<Longrightarrow> mergeKey new = k \<Longrightarrow> mergeKey (spec_step D kept new) = k"
  by (simp add: spec_step_def Let_def backfill_key)

lemma foldl_spec_step_key:
  "mergeKey first = k \<Longrightarrow> \<forall>r\<in>set later. mergeKey r = k \<Longrightarrow>
   mergeKey (foldl (spec_step D) first later) = k"
  by (induction later arbitrary: first) (simp_all add: spec_step_key)

lemma collapseGroup_key:
  "collapseGroup D (filter (\<lambda>r. mergeKey r = k) data) = Some r' \<Longrightarrow> mergeKey r' = k"
proof (cases "filter (\<lambda>r. mergeKey r = k) data")
  case Nil
  moreover assume "collapseGroup D (filter (\<lambda>r. mergeKey r = k) data) = Some r'"
  ultimately show ?thesis by simp
next
  case (Cons first later)
  then have "set (first # later) = set (filter (\<lambda>r. mergeKey r = k) data)" by simp
  then have "mergeKey first = k" "\<forall>r\<in>set later. mergeKey r = k" by auto
  then have "mergeKey (foldl (spec_step D) first later) = k" by (rule foldl_spec_step_key)
  moreover assume "collapseGroup D (filter (\<lambda>r. mergeKey r = k) data) = Some r'"
  ultimately show ?thesis by (simp add: Cons)
qed

lemma keep_keys:
  "map mergeKey (keepMostRecentInspections D data) = firstKeys (map mergeKey data)"
proof -
  let ?m = "fold (\<lambda>r m. mergeRecord D m r) data []"
  from fold_mergeRecord [of D data]
  have keys: "map fst ?m = firstKeys (map mergeKey data)"
    and vals: "\<And>k. map_of ?m k = collapseGroup D (filter (\<lambda>r. mergeKey r = k) data)"
    by simp_all
  have "mergeKey (snd p) = fst p" if "p \<in> set ?m" for p
  proof -
    have "distinct (map fst ?m)" by (simp add: keys firstKeys_distinct)
    with that have "map_of ?m (fst p) = Some (snd p)" by simp
    then have "collapseGroup D (filter (\<lambda>r. mergeKey r = fst p) data) = Some (snd p)"
      by (simp only: vals)
    then show ?thesis by (rule collapseGroup_key)
  qed
  then have "map (mergeKey \<circ> snd) ?m = map fst ?m" by simp
  then have "map mergeKey (map snd ?m) = firstKeys (map mergeKey data)"
    by (simp only: keys map_map)
  then show ?thesis by (simp only: keepMostRecentInspections_def)
qed

lemma fold_distinct_keys:
  "distinct (map mergeKey data) \<Longrightarrow>
   fold (\<lambda>r m. mergeRecord D m r) data [] = map (\<lambda>r. (mergeKey r, r)) data"
proof (induction data rule: rev_induct)
  case Nil
  then show ?case by simp
next
  case (snoc x xs)
  then have ih: "fold (\<lambda>r m. mergeRecord D m r) xs [] = map (\<lambda>r. (mergeKey r, r)) xs"
    and new: "mergeKey x \<notin> mergeKey ` set xs" by simp_all
  from new have "map_of (map (\<lambda>r. (mergeKey r, r)) xs) (mergeKey x) = None"
    by (simp add: map_of_eq_None_iff image_image)
  then have "mergeRecord D (map (\<lambda>r. (mergeKey r, r)) xs) x
      = map (\<lambda>r. (mergeKey r, r)) xs @ [(mergeKey x, x)]"
    by (simp add: mergeRecord_eq mapSet_new)
  then show ?case
    by (simp add: ih)
qed

lemma fold_same_records:
  assumes d: "distinct (map mergeKey data)" and s: "set xs \<subseteq> set data"
  shows "fold (\<lambda>r m. mergeRecord D m r) xs (map (\<lambda>r. (mergeKey r, r)) data)
     = map (\<lambda>r. (mergeKey r, r)) data"
  using s
proof (induction xs)
  case Nil
  then show ?case by simp
next
  case (Cons x xs)
  let ?m = "map (\<lambda>r. (mergeKey r, r)) data"
  from d have "distinct (map fst ?m)" by (simp add: comp_def)
  moreover from Cons.prems have "(mergeKey x, x) \<in> set ?m" by auto
  ultimately have "map_of ?m (mergeKey x) = Some x" by (rule map_of_is_SomeI)
  then have "mergeRecord D ?m x = ?m"
    by (simp add: mergeRecord_eq spec_step_self mapSet_same)
  with Cons show ?case by simp
qed

lemma keep_distinct: "distinct (map mergeKey data) \<Longrightarrow> keepMostRecentInspections D data = data"
  by (simp add: keepMostRecentInspections_def fold_distinct_keys comp_def)

lemma keep_twice:
  "distinct (map mergeKey data) \<Longrightarrow> keepMostRecentInspections D (data @ data) = data"
  by (simp add: keepMostRecentInspections_def fold_distinct_keys fold_same_records comp_def)


lemma isWhiteSpace_iff:
  "isWhiteSpace c = (of_char c \<in> {9, 10, 11, 12, 13, 32, 160 :: nat})"
proof -
  have e: "\<And>d. (c = d) = (of_char c = (of_char d :: nat))" by simp
  show ?thesis unfolding isWhiteSpace_def e by simp
qed

lemma toLowerChar_of_char:
  "(of_char (toLowerChar c) :: nat)
     = (if (65 \<le> (of_char c :: nat) \<and> (of_char c :: nat) \<le> 90)
           \<or> (192 \<le> (of_char c :: nat) \<and> (of_char c :: nat) \<le> 222 \<and> (of_char c :: nat) \<noteq> 215)
        then of_char c + 32 else of_char c)"
  by (simp add: toLowerChar_def Let_def)

lemma isWhiteSpace_toLowerChar: "isWhiteSpace (toLowerChar c) = isWhiteSpace c"
  unfolding isWhiteSpace_iff toLowerChar_of_char by auto

lemma trim_toLowerCase: "trim (toLowerCase s) = toLowerCase (trim s)"
proof -
  have c: "isWhiteSpace \<circ> toLowerChar = isWhiteSpace"
    by (simp add: fun_eq_iff isWhiteSpace_toLowerChar)
  show ?thesis
    by (simp add: trim_def toLowerCase_def dropWhile_map rev_map c)
qed


text \<open>
  Claim C7. The merge engine does what the specification describes. Grouped by the key
  made of the lowercased, trimmed name and address, and read in the original order, the
  first record of a key is kept; each later record of the key backfills \<open>facilityType\<close>
  alone onto the kept record when the kept record lacks it and the new record has it, and
  replaces the kept record when its inspection date is strictly later. The output has
  exactly one record for each key of the input, in the order in which the keys first
  occur.
\<close>

theorem merge_engine_behaviour:
  "keepMostRecentInspections D data = merge_spec D data
   \<and> map mergeKey (keepMostRecentInspections D data) = firstKeys (map mergeKey data)
   \<and> distinct (map mergeKey (keepMostRecentInspections D data))
   \<and> set (map mergeKey (keepMostRecentInspections D data)) = set (map mergeKey data)
   \<and> length (keepMostRecentInspections D data) = card (mergeKey ` set data)
   \<and> mergeRecord D m r =
        (case map_of m (mergeKey r) of
           None \<Rightarrow> mapSet (mergeKey r) r m
         | Some existing \<Rightarrow> mapSet (mergeKey r) (spec_step D existing r) m)
   \<and> spec_step D kept new =
        (if newer D (inspectionDate new) (inspectionDate kept) then new
         else if \<not> truthy (facilityType kept) \<and> truthy (facilityType new)
              then kept\<lparr>facilityType := facilityType new\<rparr> else kept)
   \<and> mergeKey r = toLowerCase (trim (name r)) @ ''|'' @ toLowerCase (trim (addr r))"
proof (intro conjI)
  show "keepMostRecentInspections D data = merge_spec D data"
    by (rule keep_refines_spec)
  show k: "map mergeKey (keepMostRecentInspections D data) = firstKeys (map mergeKey data)"
    by (rule keep_keys)
  show d: "distinct (map mergeKey (keepMostRecentInspections D data))"
    by (simp only: k firstKeys_distinct)
  show s: "set (map mergeKey (keepMostRecentInspections D data)) = set (map mergeKey data)"
    by (simp only: k firstKeys_set)
  have "length (keepMostRecentInspections D data)
      = length (map mergeKey (keepMostRecentInspections D data))" by simp
  also have "\<dots> = card (set (map mergeKey (keepMostRecentInspections D data)))"
    using d by (simp only: distinct_card)
  also have "\<dots> = card (set (map mergeKey data))"
    by (simp only: s)
  also have "\<dots> = card (mergeKey ` set data)"
    by simp
  finally show "length (keepMostRecentInspections D data) = card (mergeKey ` set data)" .
  show "mergeRecord D m r =
        (case map_of m (mergeKey r) of
           None \<Rightarrow> mapSet (mergeKey r) r m
         | Some existing \<Rightarrow> mapSet (mergeKey r) (spec_step D existing r) m)"
    by (rule mergeRecord_eq)
  show "spec_step D kept new =
        (if newer D (inspectionDate new) (inspectionDate kept) then new
         else if \<not> truthy (facilityType kept) \<and> truthy (facilityType new)
              then kept\<lparr>facilityType := facilityType new\<rparr> else kept)"
    by (simp add: spec_step_def Let_def backfill_def)
  show "mergeKey r = toLowerCase (trim (name r)) @ ''|'' @ toLowerCase (trim (addr r))"
    by (simp add: mergeKey_def trim_toLowerCase)
qed

lemma joe_key: "mergeKey (sampleRecord ''Joe's Diner'' dt ft) = ''joe's diner|123 main st''"
proof -
  have "trim (toLowerCase ''Joe's Diner'') = ''joe's diner''" by code_simp
  moreover have "trim (toLowerCase ''123 Main St'') = ''123 main st''" by code_simp
  ultimately show ?thesis by (simp add: mergeKey_def sampleRecord_def)
qed

lemma joe_key_capitals: "mergeKey (sampleRecord ''JOE'S DINER '' dt ft) = ''joe's diner|123 main st''"
proof -
  have "trim (toLowerCase ''JOE'S DINER '') = ''joe's diner''" by code_simp
  moreover have "trim (toLowerCase ''123 Main St'') = ''123 main st''" by code_simp
  ultimately show ?thesis by (simp add: mergeKey_def sampleRecord_def)
qed

lemma june_newer: "newer sampleDates ''2024-06-01'' ''2024-01-01''"
  "\<not> newer sampleDates ''2024-01-01'' ''2024-06-01''"
  by (simp_all add: newer_def sampleDates_def)

lemma joeData_spec:
  "merge_spec sampleDates joeData = [sampleRecord ''Joe's Diner'' ''2024-06-01'' None]"
  by (simp add: merge_spec_def joeData_def joe_key firstKeys_def
      spec_step_def backfill_def Let_def)
    (simp add: sampleRecord_def june_newer truthy_def)

lemma backfillData_spec:
  "merge_spec sampleDates backfillData
     = [sampleRecord ''Joe's Diner'' ''2024-06-01'' (Some ''Restaurant'')]"
  by (simp add: merge_spec_def backfillData_def joe_key joe_key_capitals firstKeys_def
      spec_step_def backfill_def Let_def)
    (simp add: sampleRecord_def june_newer truthy_def)

theorem merge_engine_behaviour_witness:
  "keepMostRecentInspections sampleDates joeData
     = [sampleRecord ''Joe's Diner'' ''2024-06-01'' None]
   \<and> keepMostRecentInspections sampleDates backfillData
     = [sampleRecord ''Joe's Diner'' ''2024-06-01'' (Some ''Restaurant'')]
   \<and> map mergeKey joeData = [''joe's diner|123 main st'', ''joe's diner|123 main st'']
   \<and> map mergeKey (keepMostRecentInspections sampleDates joeData) = [''joe's diner|123 main st'']"
proof -
  note a = merge_engine_behaviour [of sampleDates joeData, THEN conjunct1]
  note b = merge_engine_behaviour [of sampleDates backfillData, THEN conjunct1]
  have k: "map mergeKey joeData = [''joe's diner|123 main st'', ''joe's diner|123 main st'']"
    by (simp add: joeData_def joe_key)
  have c: "map mergeKey (keepMostRecentInspections sampleDates joeData)
      = [''joe's diner|123 main st'']"
    by (simp only: a joeData_spec list.map joe_key)
  show ?thesis
    by (intro conjI k c) (simp_all only: a b joeData_spec backfillData_spec)
qed


lemma keep_output_distinct: "distinct (map mergeKey (keepMostRecentInspections D data))"
  by (simp only: keep_keys firstKeys_distinct)

text \<open>
  Claim C8 as stated fails: a dataset with two inspections of one establishment, merged
  with itself, collapses to the later inspection and is not the dataset.
\<close>

theorem merge_with_itself_counterexample:
  "mergeWithExistingData sampleDates joeData (Some joeData)
     = [sampleRecord ''Joe's Diner'' ''2024-06-01'' None]
   \<and> length (keepMostRecentInspections sampleDates (joeData @ joeData)) = 1
   \<and> length joeData = 2
   \<and> keepMostRecentInspections sampleDates (joeData @ joeData) \<noteq> joeData"
proof -
  have s1: "spec_step sampleDates (sampleRecord ''Joe's Diner'' ''2024-01-01'' None)
      (sampleRecord ''Joe's Diner'' ''2024-06-01'' None)
      = sampleRecord ''Joe's Diner'' ''2024-06-01'' None"
    by (simp add: spec_step_def backfill_def Let_def sampleRecord_def june_newer truthy_def)
  have s2: "spec_step sampleDates (sampleRecord ''Joe's Diner'' ''2024-06-01'' None)
      (sampleRecord ''Joe's Diner'' ''2024-01-01'' None)
      = sampleRecord ''Joe's Diner'' ''2024-06-01'' None"
    by (simp add: spec_step_def backfill_def Let_def sampleRecord_def june_newer truthy_def)
  have "merge_spec sampleDates (joeData @ joeData)
      = [sampleRecord ''Joe's Diner'' ''2024-06-01'' None]"
    by (simp add: merge_spec_def joeData_def joe_key firstKeys_def s1 s2 spec_step_self)
  then have k: "keepMostRecentInspections sampleDates (joeData @ joeData)
      = [sampleRecord ''Joe's Diner'' ''2024-06-01'' None]"
    by (simp only: keep_refines_spec)
  have l: "length joeData = 2" by (simp add: joeData_def)
  from k have l1: "length (keepMostRecentInspections sampleDates (joeData @ joeData)) = 1"
    by simp
  from l l1 have ne: "keepMostRecentInspections sampleDates (joeData @ joeData) \<noteq> joeData"
    by auto
  from k have m: "mergeWithExistingData sampleDates joeData (Some joeData)
      = [sampleRecord ''Joe's Diner'' ''2024-06-01'' None]"
    by (simp add: mergeWithExistingData_def)
  show ?thesis by (intro conjI m l1 l ne)
qed

text \<open>
  Claim C8, amended. Merging a dataset with itself gives back the dataset when the
  dataset has one record per establishment key. Every output of the merge engine is such
  a dataset, so merging an output with itself, or merging it again, changes nothing.
\<close>

theorem merge_with_itself_distinct_keys:
  "(distinct (map mergeKey data) \<longrightarrow>
      keepMostRecentInspections D (data @ data) = data
      \<and> mergeWithExistingData D data (Some data) = data)
   \<and> keepMostRecentInspections D
        (keepMostRecentInspections D data @ keepMostRecentInspections D data)
      = keepMostRecentInspections D data
   \<and> keepMostRecentInspections D (keepMostRecentInspections D data)
      = keepMostRecentInspections D data"
proof (intro conjI impI)
  assume d: "distinct (map mergeKey data)"
  then show "keepMostRecentInspections D (data @ data) = data" by (rule keep_twice)
  with d show "mergeWithExistingData D data (Some data) = data"
    by (simp add: mergeWithExistingData_def)
next
  show "keepMostRecentInspections D
        (keepMostRecentInspections D data @ keepMostRecentInspections D data)
      = keepMostRecentInspections D data"
    by (rule keep_twice) (rule keep_output_distinct)
  show "keepMostRecentInspections D (keepMostRecentInspections D data)
      = keepMostRecentInspections D data"
    by (rule keep_distinct) (rule keep_output_distinct)
qed

theorem merge_with_itself_distinct_keys_witness:
  "distinct (map mergeKey twoPlaces)
   \<and> keepMostRecentInspections sampleDates (twoPlaces @ twoPlaces) = twoPlaces
   \<and> mergeWithExistingData sampleDates twoPlaces (Some twoPlaces) = twoPlaces"
proof -
  have "trim (toLowerCase ''Cafe B'') = ''cafe b''" by code_simp
  moreover have "trim (toLowerCase ''123 Main St'') = ''123 main st''" by code_simp
  ultimately have c: "mergeKey (sampleRecord ''Cafe B'' ''2024-01-01'' (Some ''Coffee Shop/Cafe''))
      = ''cafe b|123 main st''"
    by (simp add: mergeKey_def sampleRecord_def)
  have d: "distinct (map mergeKey twoPlaces)"
    by (simp add: twoPlaces_def joe_key c)
  note r = merge_with_itself_distinct_keys [THEN conjunct1, rule_format, OF d]
  show ?thesis by (intro conjI d r [THEN conjunct1] r [THEN conjunct2])
qed

end
